theory Spec2Isabelle
  imports Complex_Main "HOL-Library.Word" "HOL-Library.Code_Target_Nat"
begin

unbundle bit_operations_syntax

section \<open>Data model of the tensor program\<close>

text \<open>
  The program targets a C implementation with 32-bit \<open>int\<close> and IEEE-754 binary32
  \<open>float\<close>. A \<open>float\<close> is modelled by its 32-bit pattern, so that the pointer casts
  \<^verbatim>\<open>*((uint32_t*)&value)\<close> and \<^verbatim>\<open>*((float*)&bits)\<close> are the identity.
\<close>

type_synonym f32 = "32 word"
type_synonym u16 = "16 word"
type_synonym u32 = "32 word"
type_synonym i8 = "8 word"

datatype TensorType = TENSOR_FLOAT32 | TENSOR_FLOAT16 | TENSOR_INT8

section \<open>Half-precision codec\<close>

text \<open>
  \<^verbatim>\<open>uint16_t float32_to_float16(float value)\<close>. The three locals are kept as the
  source declares them: \<open>sign\<close> and \<open>mantissa\<close> are \<open>uint16_t\<close>, \<open>exponent\<close> is
  \<open>int16_t\<close>. The right-hand side of \<open>exponent\<close> is evaluated in \<open>uint32_t\<close>
  (it wraps below 127 - 15) and then narrowed to 16 bits, which is read as two's
  complement by the two comparisons.
\<close>

definition f16_sign :: "f32 \<Rightarrow> u16" where
  "f16_sign bits = ucast (drop_bit 16 bits AND 0x8000)"

definition f16_exponent :: "f32 \<Rightarrow> 16 word" where
  "f16_exponent bits = ucast ((drop_bit 23 bits AND 0xFF) - 127 + 15)"

definition f16_mantissa :: "f32 \<Rightarrow> u16" where
  "f16_mantissa bits = ucast (drop_bit 13 bits AND 0x3FF)"

definition float32_to_float16 :: "f32 \<Rightarrow> u16" where
  "float32_to_float16 bits =
     (let sign = f16_sign bits;
          exponent = f16_exponent bits;
          mantissa = f16_mantissa bits
      in if sint exponent \<le> 0 then 0
         else if sint exponent \<ge> 31 then ucast ((ucast sign :: 32 word) OR 0x7C00)
         else ucast (((ucast sign :: 32 word) OR push_bit 10 (scast exponent)) OR ucast mantissa))"

text \<open>
  \<^verbatim>\<open>float float16_to_float32(uint16_t value)\<close>. The \<open>uint16_t\<close> argument is promoted
  to a 32-bit \<open>int\<close> in every expression; \<^verbatim>\<open>(value & 0x8000) << 16\<close> sets bit 31 of
  that \<open>int\<close>, which the compilers of the targets define as the plain bit shift.
\<close>

definition float16_to_float32 :: "u16 \<Rightarrow> f32" where
  "float16_to_float32 v =
     (if v AND 0x7FFF = 0 then 0
      else let sign = push_bit 16 ((ucast v :: u32) AND 0x8000);
               exponent = drop_bit 10 (ucast v :: u32) AND 0x1F;
               mantissa = (ucast v :: u32) AND 0x3FF;
               exponent = exponent - 15 + 127
           in (sign OR push_bit 23 exponent) OR push_bit 13 mantissa)"

text \<open>The fields of a binary32 pattern, as numbers.\<close>

definition f32_sign :: "f32 \<Rightarrow> nat" where
  "f32_sign bits = unat bits div 2 ^ 31"

definition f32_exp :: "f32 \<Rightarrow> nat" where
  "f32_exp bits = (unat bits div 2 ^ 23) mod 2 ^ 8"

definition f32_frac :: "f32 \<Rightarrow> nat" where
  "f32_frac bits = unat bits mod 2 ^ 23"

text \<open>The rebiased exponent \<open>old_exp - 127 + 15\<close> of the specification, as an integer.\<close>

definition new_exp :: "f32 \<Rightarrow> int" where
  "new_exp bits = int (f32_exp bits) - 127 + 15"

text \<open>The fields of a half-precision pattern, as numbers.\<close>

definition f16_sign_bit :: "u16 \<Rightarrow> nat" where
  "f16_sign_bit v = unat v div 2 ^ 15"

definition f16_exp :: "u16 \<Rightarrow> nat" where
  "f16_exp v = (unat v div 2 ^ 10) mod 2 ^ 5"

definition f16_frac :: "u16 \<Rightarrow> nat" where
  "f16_frac v = unat v mod 2 ^ 10"

section \<open>Binary32 arithmetic\<close>

text \<open>
  The quantizer divides, multiplies, compares and converts \<open>float\<close> values. These C
  operators are modelled as the IEEE-754 binary32 operations with the default rounding
  (to nearest, ties to even), evaluated in \<open>float\<close> precision.

  \<open>f32_abs\<close> is the pattern without its sign bit. On these 31-bit patterns the order
  of the patterns is the order of the magnitudes, and \<open>mag_num k\<close> is the magnitude of
  pattern \<open>k\<close> in units of \<open>2 ^ -149\<close> (the smallest subnormal): the fraction alone when
  the exponent field is 0, and the significand with its hidden bit, scaled, otherwise.
  The pattern \<open>0x7F800000\<close> of infinity is given the magnitude \<open>2 ^ 128\<close> that the
  next binade would start with, so that rounding up from the largest finite value
  yields infinity, as the standard requires.
\<close>

definition f32_abs :: "f32 \<Rightarrow> nat" where
  "f32_abs bits = unat bits mod 2 ^ 31"

definition is_nan :: "f32 \<Rightarrow> bool" where
  "is_nan bits \<longleftrightarrow> f32_exp bits = 255 \<and> f32_frac bits \<noteq> 0"

definition is_inf :: "f32 \<Rightarrow> bool" where
  "is_inf bits \<longleftrightarrow> f32_exp bits = 255 \<and> f32_frac bits = 0"

definition is_finite :: "f32 \<Rightarrow> bool" where
  "is_finite bits \<longleftrightarrow> f32_exp bits < 255"

definition is_zero :: "f32 \<Rightarrow> bool" where
  "is_zero bits \<longleftrightarrow> f32_abs bits = 0"

definition mag_num :: "nat \<Rightarrow> nat" where
  "mag_num k = (if k div 2 ^ 23 = 0 then k mod 2 ^ 23
                else (2 ^ 23 + k mod 2 ^ 23) * 2 ^ (k div 2 ^ 23 - 1))"

text \<open>
  \<open>floor_pat i k n d\<close> decides the low \<open>i\<close> bits of the greatest pattern whose
  magnitude \<open>mag_num k / 2 ^ 149\<close> is at most \<open>n / d\<close>, from the top bit down.
\<close>

fun floor_pat :: "nat \<Rightarrow> nat \<Rightarrow> nat \<Rightarrow> nat \<Rightarrow> nat" where
  "floor_pat 0 k n d = k"
| "floor_pat (Suc i) k n d =
     (if mag_num (k + 2 ^ i) * d \<le> n * 2 ^ 149 then floor_pat i (k + 2 ^ i) n d
      else floor_pat i k n d)"

text \<open>
  Rounding of the non-negative rational \<open>n / d\<close> to the nearest pattern: the pattern
  below or the one above, whichever is closer, the even one on a tie; at most the
  pattern of infinity.
\<close>

definition round_mag :: "nat \<Rightarrow> nat \<Rightarrow> nat" where
  "round_mag n d =
     (let k = floor_pat 31 0 n d;
          lo = mag_num k; hi = mag_num (k + 1);
          r = (if 2 * (n * 2 ^ 149) < (lo + hi) * d then k
               else if (lo + hi) * d < 2 * (n * 2 ^ 149) then k + 1
               else if even k then k else k + 1)
      in min r 0x7F800000)"

definition f32_pack :: "nat \<Rightarrow> nat \<Rightarrow> f32" where
  "f32_pack s k = of_nat (s * 2 ^ 31 + k)"

text \<open>
  The standard leaves the sign and payload of a NaN result open; the model returns the
  default quiet NaN, and no statement below depends on more than \<open>is_nan\<close> of it.
\<close>

definition f32_nan :: f32 where
  "f32_nan = 0x7FC00000"


definition f32_div :: "f32 \<Rightarrow> f32 \<Rightarrow> f32" where
  "f32_div a b =
     (let s = (f32_sign a + f32_sign b) mod 2 in
      if is_nan a \<or> is_nan b then f32_nan
      else if is_inf a then (if is_inf b then f32_nan else f32_pack s 0x7F800000)
      else if is_inf b then f32_pack s 0
      else if is_zero b then (if is_zero a then f32_nan else f32_pack s 0x7F800000)
      else f32_pack s (round_mag (mag_num (f32_abs a)) (mag_num (f32_abs b))))"

definition f32_mul :: "f32 \<Rightarrow> f32 \<Rightarrow> f32" where
  "f32_mul a b =
     (let s = (f32_sign a + f32_sign b) mod 2 in
      if is_nan a \<or> is_nan b then f32_nan
      else if is_inf a \<or> is_inf b then
        (if is_zero a \<or> is_zero b then f32_nan else f32_pack s 0x7F800000)
      else f32_pack s (round_mag (mag_num (f32_abs a) * mag_num (f32_abs b)) (2 ^ 298)))"

text \<open>Conversion of an \<open>int\<close> to \<open>float\<close>.\<close>

definition f32_of_int :: "int \<Rightarrow> f32" where
  "f32_of_int i = f32_pack (if i < 0 then 1 else 0) (round_mag (nat \<bar>i\<bar>) 1)"

text \<open>
  The comparisons \<open><\<close> and \<open>></\<close> on \<open>float\<close>: false whenever an operand is a NaN, and
  the numeric order otherwise (the two zeros are equal, the infinities are the
  extremes).
\<close>

definition f32_key :: "f32 \<Rightarrow> int" where
  "f32_key a = (if f32_sign a = 0 then int (f32_abs a) else - int (f32_abs a))"

definition f32_lt :: "f32 \<Rightarrow> f32 \<Rightarrow> bool" where
  "f32_lt a b \<longleftrightarrow> \<not> is_nan a \<and> \<not> is_nan b \<and> f32_key a < f32_key b"

definition f32_gt :: "f32 \<Rightarrow> f32 \<Rightarrow> bool" where
  "f32_gt a b \<longleftrightarrow> f32_lt b a"

text \<open>
  What goes wrong in the C program is a value of the model: an access past the end
  of a buffer, a union member read under a tag that another member was stored for,
  and a \<open>float\<close> converted to \<open>int8_t\<close> whose integral part \<open>int8_t\<close> cannot hold (or a
  NaN), all of which the C standard leaves undefined.
\<close>

datatype fault = OutOfBounds | WrongUnionMember | ConversionUndefined

text \<open>The integral part of a finite value: the fraction is discarded, towards zero.\<close>

definition f32_trunc :: "f32 \<Rightarrow> int" where
  "f32_trunc v = (if f32_sign v = 0 then int (mag_num (f32_abs v) div 2 ^ 149)
                  else - int (mag_num (f32_abs v) div 2 ^ 149))"

text \<open>The cast \<^verbatim>\<open>(int8_t)value\<close>.\<close>

definition f32_to_int8 :: "f32 \<Rightarrow> fault + i8" where
  "f32_to_int8 v =
     (if is_nan v \<or> is_inf v then Inl ConversionUndefined
      else if - 128 \<le> f32_trunc v \<and> f32_trunc v \<le> 127 then Inr (word_of_int (f32_trunc v))
      else Inl ConversionUndefined)"

text \<open>The real number that a finite pattern denotes.\<close>

definition f32_val :: "f32 \<Rightarrow> real" where
  "f32_val b = (if f32_sign b = 0 then 1 else - 1) * real (mag_num (f32_abs b)) / 2 ^ 149"

section \<open>Tensors\<close>

text \<open>
  The \<open>data\<close> union holds one of three pointers; the model holds the buffer that the
  pointer addresses, tagged with the member it was stored through.
\<close>

datatype tensor_data = F32 "f32 list" | F16 "u16 list" | I8 "i8 list"

record Tensor =
  type :: TensorType
  rows :: u16
  cols :: u16
  data :: tensor_data

text \<open>
  \<^verbatim>\<open>total = src->rows * src->cols\<close>: the product of two \<open>uint16_t\<close> values, stored in
  a \<open>uint32_t\<close>. The product is below \<open>2 ^ 32\<close>, so the reduction changes nothing; it
  is formed in \<open>int\<close>, where the targets wrap a product of \<open>2 ^ 31\<close> or more to the
  same 32 bits.
\<close>

definition total_of :: "Tensor \<Rightarrow> nat" where
  "total_of t = (unat (rows t) * unat (cols t)) mod 2 ^ 32"

section \<open>Quantization\<close>

text \<open>The body of the loop of \<open>quantize_float32_to_int8\<close>, for one element.\<close>

definition quantize_value :: "f32 \<Rightarrow> f32 \<Rightarrow> fault + i8" where
  "quantize_value x scale =
     (let value = f32_div x scale;
          value = (if f32_gt value (f32_of_int 127) then f32_of_int 127 else value);
          value = (if f32_lt value (f32_of_int (- 128)) then f32_of_int (- 128) else value)
      in f32_to_int8 value)"

function quantize_loop :: "nat \<Rightarrow> nat \<Rightarrow> f32 list \<Rightarrow> f32 \<Rightarrow> i8 list \<Rightarrow> fault + i8 list" where
  "quantize_loop i total_n src scale dst =
     (if i < total_n then
        (if i < length src \<and> i < length dst then
           (case quantize_value (src ! i) scale of
              Inl e \<Rightarrow> Inl e
            | Inr q \<Rightarrow> quantize_loop (i + 1) total_n src scale (dst[i := q]))
         else Inl OutOfBounds)
      else Inr dst)"
  by pat_completeness auto
termination
  by (relation "measure (\<lambda>(i, total_n, src, scale, dst). total_n - i)") auto

text \<open>
  \<^verbatim>\<open>void quantize_float32_to_int8(Tensor *src, Tensor *dst, float scale)\<close>. The result
  is the destination tensor after the call. Source and destination are distinct
  buffers, as \<open>create_tensor\<close> allocates them.
\<close>

definition quantize_float32_to_int8 :: "Tensor \<Rightarrow> Tensor \<Rightarrow> f32 \<Rightarrow> fault + Tensor" where
  "quantize_float32_to_int8 src dst scale =
     (if type src \<noteq> TENSOR_FLOAT32 \<or> type dst \<noteq> TENSOR_INT8 then Inr dst
      else case (data src, data dst) of
             (F32 s, I8 d) \<Rightarrow>
               (case quantize_loop 0 (total_of src) s scale d of
                  Inl e \<Rightarrow> Inl e
                | Inr d' \<Rightarrow> Inr (dst\<lparr>data := I8 d'\<rparr>))
           | _ \<Rightarrow> Inl WrongUnionMember)"

section \<open>Dequantization\<close>

text \<open>
  \<^verbatim>\<open>src->data.i8[i] * scale\<close>: the \<open>int8_t\<close> is promoted to \<open>int\<close>, converted to
  \<open>float\<close>, and multiplied in \<open>float\<close>.
\<close>

definition dequantize_value :: "i8 \<Rightarrow> f32 \<Rightarrow> f32" where
  "dequantize_value q scale = f32_mul (f32_of_int (sint q)) scale"

function dequantize_loop :: "nat \<Rightarrow> nat \<Rightarrow> i8 list \<Rightarrow> f32 \<Rightarrow> f32 list \<Rightarrow> fault + f32 list" where
  "dequantize_loop i total_n src scale dst =
     (if i < total_n then
        (if i < length src \<and> i < length dst then
           dequantize_loop (i + 1) total_n src scale (dst[i := dequantize_value (src ! i) scale])
         else Inl OutOfBounds)
      else Inr dst)"
  by pat_completeness auto
termination
  by (relation "measure (\<lambda>(i, total_n, src, scale, dst). total_n - i)") auto

definition dequantize_int8_to_float32 :: "Tensor \<Rightarrow> Tensor \<Rightarrow> f32 \<Rightarrow> fault + Tensor" where
  "dequantize_int8_to_float32 src dst scale =
     (if type src \<noteq> TENSOR_INT8 \<or> type dst \<noteq> TENSOR_FLOAT32 then Inr dst
      else case (data src, data dst) of
             (I8 s, F32 d) \<Rightarrow>
               (case dequantize_loop 0 (total_of src) s scale d of
                  Inl e \<Rightarrow> Inl e
                | Inr d' \<Rightarrow> Inr (dst\<lparr>data := F32 d'\<rparr>))
           | _ \<Rightarrow> Inl WrongUnionMember)"

section \<open>The quantization rule in the words of the specification\<close>

text \<open>
  The specification describes one quantization step on numbers: clamp the quotient
  to \<open>[-128, 127]\<close>, then truncate toward zero. The two definitions below follow
  those words, on the real value of the quotient (an infinite quotient is beyond
  either bound); they are compared with \<open>quantize_value\<close>, which follows the code.
\<close>

definition trunc_toward_zero :: "real \<Rightarrow> int" where
  "trunc_toward_zero r = (if 0 \<le> r then \<lfloor>r\<rfloor> else \<lceil>r\<rceil>)"

definition clamp_spec :: "f32 \<Rightarrow> real" where
  "clamp_spec v = (if is_inf v then (if f32_sign v = 0 then 127 else - 128)
                   else max (- 128) (min 127 (f32_val v)))"

definition quantize_spec :: "f32 \<Rightarrow> int" where
  "quantize_spec v = trunc_toward_zero (clamp_spec v)"

section \<open>Bit-level facts\<close>

lemma nat_and_mask8: "(n::nat) AND 255 = n mod 256"
  using take_bit_eq_mask[of 8 n] by (simp add: mask_eq_exp_minus_1 take_bit_eq_mod)
lemma nat_and_mask10: "(n::nat) AND 1023 = n mod 1024"
  using take_bit_eq_mask[of 10 n] by (simp add: mask_eq_exp_minus_1 take_bit_eq_mod)
lemma nat_and_mask5: "(n::nat) AND 31 = n mod 32"
  using take_bit_eq_mask[of 5 n] by (simp add: mask_eq_exp_minus_1 take_bit_eq_mod)
lemma nat_and_mask15: "(n::nat) AND 32767 = n mod 32768"
  using take_bit_eq_mask[of 15 n] by (simp add: mask_eq_exp_minus_1 take_bit_eq_mod)

lemma nat_and_bit15: 
  assumes "n < 2^16" shows "(n::nat) AND 0x8000 = (n div 2^15) * 2^15"
proof -
  have e: "(0x8000::nat) = 2^15" by simp
  have "n AND 2^15 = push_bit 15 (drop_bit 15 n)"
  proof (rule bit_eqI)
    fix k
    have "bit n k \<Longrightarrow> k < 16" using assms
      by (metis bit_take_bit_iff take_bit_nat_eq_self)
    then show "bit (n AND 2^15) k = bit (push_bit 15 (drop_bit 15 n)) k"
      by (simp only: bit_and_iff bit_exp_iff bit_push_bit_iff bit_drop_bit_eq o_def) auto
  qed
  then show ?thesis unfolding e by (simp add: push_bit_eq_mult drop_bit_eq_div)
qed

lemma nat_or_add:
  assumes "x < 2^n" shows "y * 2^n OR x = y * 2^n + (x::nat)"
proof -
  have "push_bit n y + take_bit n x = push_bit n y OR take_bit n x"
    by (rule disjunctive_add) (auto simp: bit_simps)
  then show ?thesis using assms by (simp add: push_bit_eq_mult take_bit_nat_eq_self)
qed

lemma f32_exp_lt: "f32_exp bits < 256" by (simp add: f32_exp_def)
lemma f32_frac_lt: "f32_frac bits < 2^23" by (simp add: f32_frac_def)
lemma f32_sign_lt: "f32_sign bits < 2"
  using unsigned_less[of bits, where 'a=nat] by (simp add: f32_sign_def less_mult_imp_div_less)

lemma stb: "- (2^15) \<le> x \<Longrightarrow> x < 2^15 \<Longrightarrow> signed_take_bit 15 (x + 2^32) = (x::int)"
proof -
  assume a: "- (2^15) \<le> x" "x < 2^15"
  have "signed_take_bit 15 (x + 2^32) = take_bit 16 (x + 2^32 + 2^15) - 2^15"
    by (simp add: signed_take_bit_eq_take_bit_shift)
  also have "take_bit 16 (x + 2^32 + 2^15) = take_bit 16 (x + 2^15 + 2^16 * 2^16)"
    by (simp add: ac_simps)
  also have "\<dots> = take_bit 16 (x + 2^15)"
    unfolding take_bit_eq_mod by (rule mod_mult_self2)
  also have "\<dots> = x + 2^15" using a by (simp add: take_bit_int_eq_self)
  finally show ?thesis by simp
qed

lemma unat_drop_bit_div: "unat (drop_bit n (w::'a::len word)) = unat w div 2^n"
  by (simp only: unat_drop_bit_eq) (simp only: drop_bit_eq_div)

lemma unat_exp_field: "unat (drop_bit 23 (bits::32 word) AND 0xFF) = f32_exp bits"
proof -
  have "unat (drop_bit 23 bits AND 0xFF) = unat (drop_bit 23 bits) AND unat (0xFF::32 word)"
    by (rule unsigned_and_eq)
  also have "unat (0xFF :: 32 word) = 255" by simp
  finally show ?thesis unfolding unat_drop_bit_div nat_and_mask8 f32_exp_def by simp
qed

lemma unat_f16_mantissa: "unat (f16_mantissa bits) = f32_frac bits div 2^13"
proof -
  have "unat (drop_bit 13 bits AND 0x3FF) = unat (drop_bit 13 bits) AND unat (0x3FF::32 word)"
    by (rule unsigned_and_eq)
  also have "unat (0x3FF :: 32 word) = 1023" by simp
  finally have "unat (drop_bit 13 bits AND 0x3FF) = take_bit 10 (drop_bit 13 (unat bits))"
    unfolding nat_and_mask10 unat_drop_bit_eq take_bit_eq_mod by simp
  also have "\<dots> = drop_bit 13 (take_bit 23 (unat bits))"
    by (simp add: drop_bit_take_bit)
  finally have "unat (drop_bit 13 bits AND 0x3FF) = f32_frac bits div 2^13"
    by (simp only: f32_frac_def take_bit_eq_mod drop_bit_eq_div)
  moreover have "f32_frac bits div 2^13 < 2^10"
    using f32_frac_lt[of bits] by (simp add: less_mult_imp_div_less)
  ultimately show ?thesis
    by (simp add: f16_mantissa_def unsigned_ucast_eq take_bit_nat_eq_self)
qed

lemma unat_f16_sign: "unat (f16_sign bits) = f32_sign bits * 2^15"
proof -
  have lt: "unat bits div 2^16 < 2^16"
    using unsigned_less[of bits, where 'a=nat] by (simp add: less_mult_imp_div_less)
  have "unat (drop_bit 16 bits AND 0x8000) = unat (drop_bit 16 bits) AND unat (0x8000::32 word)"
    by (rule unsigned_and_eq)
  also have "unat (0x8000 :: 32 word) = 0x8000" by simp
  finally have "unat (drop_bit 16 bits AND 0x8000) = (unat bits div 2^16 div 2^15) * 2^15"
    unfolding unat_drop_bit_div using nat_and_bit15[OF lt] by simp
  also have "\<dots> = f32_sign bits * 2^15"
    by (simp add: f32_sign_def div_mult2_eq[symmetric])
  finally have "unat (drop_bit 16 bits AND 0x8000) = f32_sign bits * 2^15" .
  then show ?thesis using f32_sign_lt[of bits]
    by (simp add: f16_sign_def unsigned_ucast_eq take_bit_nat_eq_self)
qed

lemma unat_exponent: "unat ((drop_bit 23 (bits::32 word) AND 0xFF) - 127 + 15) = (if 112 \<le> f32_exp bits then f32_exp bits - 112 else f32_exp bits + 2^32 - 112)"
proof -
  define e where "e = drop_bit 23 (bits::32 word) AND 0xFF"
  have ue: "unat e = f32_exp bits" unfolding e_def by (rule unat_exp_field)
  have "e - 127 + 15 = e - 112" by simp
  moreover have "unat (e - 112) = (if 112 \<le> unat e then unat e - 112 else unat e + 2^32 - 112)"
    using f32_exp_lt[of bits] ue
    by (simp add: unat_sub_if_size word_size)
  ultimately show ?thesis using ue unfolding e_def by simp
qed

lemma sint_f16_exponent: "sint (f16_exponent bits) = new_exp bits"
proof -
  define w where "w = (drop_bit 23 (bits::32 word) AND 0xFF) - 127 + 15"
  have u: "unat w = (if 112 \<le> f32_exp bits then f32_exp bits - 112 else f32_exp bits + 2^32 - 112)"
    unfolding w_def by (rule unat_exponent)
  have s: "sint (ucast w :: 16 word) = signed_take_bit 15 (int (unat w))"
    by (simp add: sint_uint unsigned_ucast_eq  signed_take_bit_take_bit) 
  show ?thesis 
  proof (cases "112 \<le> f32_exp bits")
    case True
    then have "int (unat w) = new_exp bits" using u by (simp add: new_exp_def)
    moreover have "0 \<le> new_exp bits" "new_exp bits < 2^15" using True f32_exp_lt[of bits] by (simp_all add: new_exp_def)
    ultimately show ?thesis unfolding f16_exponent_def w_def[symmetric] s
      by (simp add: signed_take_bit_int_eq_self)
  next
    case False
    then have "int (unat w) = new_exp bits + 2^32" using u by (simp add: new_exp_def)
    moreover have "-(2^15) \<le> new_exp bits" "new_exp bits < 2^15" using False f32_exp_lt[of bits] by (simp_all add: new_exp_def)
    ultimately show ?thesis unfolding f16_exponent_def w_def[symmetric] s
      by (simp only: stb)
  qed
qed

lemma unat_ucast_16_32: "unat (ucast (w::16 word) :: 32 word) = unat w"
  using unsigned_less[of w, where 'a=nat] by (simp add: unsigned_ucast_eq take_bit_nat_eq_self)

lemma float32_to_float16_normal:
  assumes "0 < new_exp bits" "new_exp bits < 31"
  shows "unat (float32_to_float16 bits) = f32_sign bits * 2^15 + nat (new_exp bits) * 2^10 + f32_frac bits div 2^13"
proof -
  define s where "s = f32_sign bits"
  define e where "e = nat (new_exp bits)"
  define m where "m = f32_frac bits div 2^13"
  have sb: "s < 2" unfolding s_def by (rule f32_sign_lt)
  have eb: "e < 32" using assms by (simp add: e_def)
  have mb: "m < 2^10" unfolding m_def using f32_frac_lt[of bits] by (simp add: less_mult_imp_div_less)
  have us: "unat (ucast (f16_sign bits) :: 32 word) = s * 2^15"
    by (simp add: unat_ucast_16_32 unat_f16_sign s_def)
  have um: "unat (ucast (f16_mantissa bits) :: 32 word) = m"
    by (simp add: unat_ucast_16_32 unat_f16_mantissa m_def)
  have "(scast (f16_exponent bits) :: 32 word) = word_of_int (sint (f16_exponent bits))"
    by simp
  also have "\<dots> = of_nat e" using assms by (simp add: sint_f16_exponent e_def)
  finally have "push_bit 10 (scast (f16_exponent bits) :: 32 word) = of_nat (e * 2^10)"
    by (simp add: push_bit_eq_mult)
  then have ue: "unat (push_bit 10 (scast (f16_exponent bits) :: 32 word)) = e * 2^10"
    using eb by (simp only: unat_of_nat) simp
  have "unat (((ucast (f16_sign bits) :: 32 word) OR push_bit 10 (scast (f16_exponent bits))) OR ucast (f16_mantissa bits))
        = (s * 2^15 OR e * 2^10) OR m"
    by (simp only: unsigned_or_eq us ue um)
  also have "s * 2^15 OR e * 2^10 = s * 2^15 + e * 2^10"
    using eb nat_or_add[of "e * 2^10" 15 s] by simp
  also have "(s * 2^15 + e * 2^10) OR m = (s * 2^5 + e) * 2^10 OR m" by (simp add: algebra_simps)
  also have "\<dots> = (s * 2^5 + e) * 2^10 + m" using mb by (rule nat_or_add)
  finally have r: "unat (((ucast (f16_sign bits) :: 32 word) OR push_bit 10 (scast (f16_exponent bits))) OR ucast (f16_mantissa bits))
        = s * 2^15 + e * 2^10 + m" by (simp add: algebra_simps)
  have "s * 2^15 + e * 2^10 + m < 2^16" using sb eb mb by simp
  then have "unat (ucast (((ucast (f16_sign bits) :: 32 word) OR push_bit 10 (scast (f16_exponent bits))) OR ucast (f16_mantissa bits)) :: 16 word)
       = s * 2^15 + e * 2^10 + m"
    by (simp only: unsigned_ucast_eq r) (simp add: take_bit_nat_eq_self)
  then show ?thesis using assms
    by (simp add: float32_to_float16_def Let_def sint_f16_exponent s_def e_def m_def)
qed

lemma float32_to_float16_underflow:
  assumes "new_exp bits \<le> 0"
  shows "float32_to_float16 bits = 0"
  using assms by (simp add: float32_to_float16_def Let_def sint_f16_exponent)

lemma float32_to_float16_overflow:
  assumes "31 \<le> new_exp bits"
  shows "unat (float32_to_float16 bits) = f32_sign bits * 2^15 + 31 * 2^10"
proof -
  have "unat ((ucast (f16_sign bits) :: 32 word) OR 0x7C00) = f32_sign bits * 2^15 OR 31 * 2^10"
    by (simp only: unsigned_or_eq unat_ucast_16_32 unat_f16_sign) simp
  also have "\<dots> = f32_sign bits * 2^15 + 31 * 2^10"
    using nat_or_add[of "31 * 2^10" 15 "f32_sign bits"] by simp
  finally have r: "unat ((ucast (f16_sign bits) :: 32 word) OR 0x7C00) = f32_sign bits * 2^15 + 31 * 2^10" .
  have "f32_sign bits * 2^15 + 31 * 2^10 < 2^16" using f32_sign_lt[of bits] by simp
  then have "unat (ucast ((ucast (f16_sign bits) :: 32 word) OR 0x7C00) :: 16 word) = f32_sign bits * 2^15 + 31 * 2^10"
    by (simp only: unsigned_ucast_eq r) (simp add: take_bit_nat_eq_self)
  then show ?thesis using assms
    by (simp add: float32_to_float16_def Let_def sint_f16_exponent)
qed

lemma unat_and_7FFF: "unat ((v::16 word) AND 0x7FFF) = unat v mod 2^15"
proof -
  have "unat (v AND 0x7FFF) = unat v AND unat (0x7FFF :: 16 word)" by (rule unsigned_and_eq)
  also have "unat (0x7FFF :: 16 word) = 32767" by simp
  finally show ?thesis unfolding nat_and_mask15 by simp
qed

lemma low15_zero_iff: "(v::16 word) AND 0x7FFF = 0 \<longleftrightarrow> unat v mod 2^15 = 0"
  using unat_and_7FFF[of v] by (metis unsigned_eq_0_iff)

lemma float16_to_float32_zero:
  assumes "unat v mod 2^15 = 0" shows "float16_to_float32 v = 0"
  using assms by (simp add: float16_to_float32_def low15_zero_iff del: unsigned_eq_0_iff)

lemma word_of_unat: "unat w = n \<Longrightarrow> (w::'a::len word) = of_nat n"
  by auto

lemma float16_to_float32_nonzero:
  assumes "unat v mod 2^15 \<noteq> 0" 
  shows "unat (float16_to_float32 v) = f16_sign_bit v * 2^31 + (f16_exp v + 112) * 2^23 + f16_frac v * 2^13"
proof -
  define s where "s = f16_sign_bit v"
  define e where "e = f16_exp v"
  define m where "m = f16_frac v"
  have vb: "unat v < 2^16" using unsigned_less[of v, where 'a=nat] by simp
  have sb: "s < 2" unfolding s_def f16_sign_bit_def using vb by (simp add: less_mult_imp_div_less)
  have eb: "e < 32" unfolding e_def f16_exp_def by simp
  have mb: "m < 2^10" unfolding m_def f16_frac_def by simp
  have nz: "v AND 0x7FFF \<noteq> 0"
    using assms by (simp only: low15_zero_iff not_False_eq_True)
  have "unat ((ucast v :: 32 word) AND 0x8000) = unat (ucast v :: 32 word) AND unat (0x8000 :: 32 word)"
    by (rule unsigned_and_eq)
  also have "unat (0x8000 :: 32 word) = 0x8000" by simp
  finally have "unat ((ucast v :: 32 word) AND 0x8000) = s * 2^15"
    unfolding unat_ucast_16_32 using nat_and_bit15[OF vb] by (simp add: s_def f16_sign_bit_def)
  then have "(ucast v :: 32 word) AND 0x8000 = of_nat (s * 2^15)"
    by (rule word_of_unat)
  then have "push_bit 16 ((ucast v :: 32 word) AND 0x8000) = of_nat (s * 2^31)"
    by (simp add: push_bit_eq_mult)
  then have us: "unat (push_bit 16 ((ucast v :: 32 word) AND 0x8000)) = s * 2^31"
    using sb by (simp only: unat_of_nat) simp
  have "unat (drop_bit 10 (ucast v :: 32 word) AND 0x1F) = unat (drop_bit 10 (ucast v :: 32 word)) AND unat (0x1F :: 32 word)"
    by (rule unsigned_and_eq)
  also have "unat (0x1F :: 32 word) = 31" by simp
  finally have "unat (drop_bit 10 (ucast v :: 32 word) AND 0x1F) = e"
    unfolding unat_drop_bit_div unat_ucast_16_32 nat_and_mask5 by (simp add: e_def f16_exp_def)
  then have "drop_bit 10 (ucast v :: 32 word) AND 0x1F = of_nat e"
    by (rule word_of_unat)
  then have "push_bit 23 ((drop_bit 10 (ucast v :: 32 word) AND 0x1F) - 15 + 127) = of_nat ((e + 112) * 2^23)"
    by (simp add: push_bit_eq_mult)
  then have ue: "unat (push_bit 23 ((drop_bit 10 (ucast v :: 32 word) AND 0x1F) - 15 + 127)) = (e + 112) * 2^23"
    using eb by (simp only: unat_of_nat) simp
  have "unat ((ucast v :: 32 word) AND 0x3FF) = unat (ucast v :: 32 word) AND unat (0x3FF :: 32 word)"
    by (rule unsigned_and_eq)
  also have "unat (0x3FF :: 32 word) = 1023" by simp
  finally have "unat ((ucast v :: 32 word) AND 0x3FF) = m"
    unfolding unat_ucast_16_32 nat_and_mask10 by (simp add: m_def f16_frac_def)
  then have "(ucast v :: 32 word) AND 0x3FF = of_nat m"
    by (rule word_of_unat)
  then have "push_bit 13 ((ucast v :: 32 word) AND 0x3FF) = of_nat (m * 2^13)"
    by (simp add: push_bit_eq_mult)
  then have um: "unat (push_bit 13 ((ucast v :: 32 word) AND 0x3FF)) = m * 2^13"
    using mb by (simp only: unat_of_nat) simp
  have "unat ((push_bit 16 ((ucast v :: 32 word) AND 0x8000) OR push_bit 23 ((drop_bit 10 (ucast v :: 32 word) AND 0x1F) - 15 + 127)) 
         OR push_bit 13 ((ucast v :: 32 word) AND 0x3FF)) = (s * 2^31 OR (e + 112) * 2^23) OR m * 2^13"
    by (simp only: unsigned_or_eq us ue um)
  also have "s * 2^31 OR (e + 112) * 2^23 = s * 2^31 + (e + 112) * 2^23"
    using eb nat_or_add[of "(e + 112) * 2^23" 31 s] by simp
  also have "(s * 2^31 + (e + 112) * 2^23) OR m * 2^13 = (s * 2^8 + (e + 112)) * 2^23 OR m * 2^13" by (simp add: algebra_simps)
  also have "\<dots> = (s * 2^8 + (e + 112)) * 2^23 + m * 2^13" using mb by (intro nat_or_add) simp
  finally show ?thesis using nz by (simp add: float16_to_float32_def Let_def s_def e_def m_def algebra_simps)
qed

section \<open>Claims on the half-precision codec\<close>

text \<open>
  Claim C3. Whenever the rebiased exponent \<open>old_exp - 127 + 15\<close> of the input is at
  most 0, \<open>float32_to_float16\<close> returns exactly 0, so the sign bit is dropped. The
  patterns of \<open>0.0f\<close> and \<open>-0.0f\<close> are \<open>0x00000000\<close> and \<open>0x80000000\<close>; both encode
  to 0, and \<open>float16_to_float32\<close> maps 0 to the pattern of \<open>0.0f\<close>.
\<close>

theorem C3_underflow_to_zero:
  "(new_exp bits \<le> 0 \<longrightarrow> float32_to_float16 bits = 0)
   \<and> float32_to_float16 0 = 0
   \<and> float32_to_float16 0x80000000 = 0
   \<and> float16_to_float32 0 = 0"
proof -
  have a: "new_exp 0 \<le> 0" "new_exp 0x80000000 \<le> 0"
    by (simp_all add: new_exp_def f32_exp_def)
  have "float16_to_float32 0 = 0"
    by (rule float16_to_float32_zero) simp
  then show ?thesis
    using float32_to_float16_underflow[of bits] a[THEN float32_to_float16_underflow]
    by blast
qed

theorem C3_underflow_to_zero_witness:
  "new_exp 0x80000000 \<le> 0 \<and> float32_to_float16 0x80000000 = 0
   \<and> new_exp 0x33D6BF95 \<le> 0 \<and> float32_to_float16 0x33D6BF95 = 0"
proof -
  have "new_exp 0x80000000 \<le> 0" "new_exp 0x33D6BF95 \<le> 0"
    by (simp_all add: new_exp_def f32_exp_def)
  then show ?thesis
    using C3_underflow_to_zero[of "0x80000000"] C3_underflow_to_zero[of "0x33D6BF95"]
    by blast
qed

text \<open>
  Claim C4. Whenever the rebiased exponent is at least 31 (infinities, and finite
  values beyond the half-precision range alike), the result is the sign bit of the
  input in bit 15, the exponent field \<open>11111\<close> and a zero mantissa, that is
  \<open>sign | 0x7C00\<close>.
\<close>

theorem C4_overflow_to_infinity_code:
  "31 \<le> new_exp bits \<Longrightarrow>
     unat (float32_to_float16 bits) = f32_sign bits * 2 ^ 15 + 31 * 2 ^ 10 + 0
     \<and> float32_to_float16 bits = (if f32_sign bits = 1 then 0xFC00 else 0x7C00)"
proof -
  assume h: "31 \<le> new_exp bits"
  have u: "unat (float32_to_float16 bits) = f32_sign bits * 2 ^ 15 + 31 * 2 ^ 10"
    using h by (rule float32_to_float16_overflow)
  have "f32_sign bits = 0 \<or> f32_sign bits = 1"
    using f32_sign_lt[of bits] by auto
  then have "float32_to_float16 bits = (if f32_sign bits = 1 then 0xFC00 else 0x7C00)"
  proof
    assume z: "f32_sign bits = 0"
    then have "unat (float32_to_float16 bits) = 31744" using u by simp
    then have "float32_to_float16 bits = of_nat 31744" by (rule word_of_unat)
    then show ?thesis using z by simp
  next
    assume o: "f32_sign bits = 1"
    then have "unat (float32_to_float16 bits) = 64512" using u by simp
    then have "float32_to_float16 bits = of_nat 64512" by (rule word_of_unat)
    then show ?thesis using o by simp
  qed
  then show ?thesis using u by simp
qed

theorem C4_overflow_to_infinity_code_witness:
  "31 \<le> new_exp 0xFF800000 \<and> float32_to_float16 0xFF800000 = 0xFC00
   \<and> 31 \<le> new_exp 0x501502F9 \<and> float32_to_float16 0x501502F9 = 0x7C00"
proof -
  have a: "31 \<le> new_exp 0xFF800000" and b: "31 \<le> new_exp 0x501502F9"
    by (simp_all add: new_exp_def f32_exp_def)
  have "f32_sign 0xFF800000 = 1" "f32_sign 0x501502F9 = 0"
    by (simp_all add: f32_sign_def)
  then show ?thesis
    using C4_overflow_to_infinity_code[OF a] C4_overflow_to_infinity_code[OF b] a b
    by simp
qed

text \<open>
  Claim C5. If the low 15 bits of the argument are zero, \<open>float16_to_float32\<close>
  returns the pattern of \<open>0.0f\<close> (for the encoded zero and the encoded negative zero
  alike). For every other argument, the exponent field \<open>11111\<close> included, the result
  is the pattern with the sign in bit 31, the exponent field \<open>exp - 15 + 127\<close> in bits
  30 to 23 and the 10 mantissa bits in bits 22 to 13; the three fields do not
  overlap, so the bitwise OR is their sum.
\<close>

theorem C5_decode_bit_pattern:
  "(unat v mod 2 ^ 15 = 0 \<longrightarrow> float16_to_float32 v = 0)
   \<and> (unat v mod 2 ^ 15 \<noteq> 0 \<longrightarrow>
        unat (float16_to_float32 v)
          = f16_sign_bit v * 2 ^ 31 + (f16_exp v + 127 - 15) * 2 ^ 23 + f16_frac v * 2 ^ 13)"
  using float16_to_float32_zero[of v] float16_to_float32_nonzero[of v]
  by simp

theorem C5_decode_bit_pattern_witness:
  "unat (0x8000 :: u16) mod 2 ^ 15 = 0 \<and> float16_to_float32 0x8000 = 0
   \<and> unat (0xFC01 :: u16) mod 2 ^ 15 \<noteq> 0
   \<and> unat (float16_to_float32 0xFC01) = 1 * 2 ^ 31 + (31 + 127 - 15) * 2 ^ 23 + 1 * 2 ^ 13"
proof -
  have a: "unat (0x8000 :: u16) mod 2 ^ 15 = 0" and b: "unat (0xFC01 :: u16) mod 2 ^ 15 \<noteq> 0"
    by simp_all
  have "f16_sign_bit 0xFC01 = 1" "f16_exp 0xFC01 = 31" "f16_frac 0xFC01 = 1"
    by (simp_all add: f16_sign_bit_def f16_exp_def f16_frac_def)
  then show ?thesis
    using C5_decode_bit_pattern[of "0x8000"] C5_decode_bit_pattern[of "0xFC01"] a b
    by simp
qed

text \<open>
  Claim C6. Whenever the rebiased exponent lies strictly between 0 and 31, the
  result is \<open>sign | (new_exp << 10) | mantissa\<close>: the sign in bit 15, the rebiased
  exponent in bits 14 to 10, and in bits 9 to 0 the 23-bit mantissa divided by
  \<open>2 ^ 13\<close> with the remainder dropped (truncation, no rounding).
\<close>

theorem C6_encode_normal_truncates:
  "0 < new_exp bits \<Longrightarrow> new_exp bits < 31 \<Longrightarrow>
     unat (float32_to_float16 bits)
       = f32_sign bits * 2 ^ 15 + nat (new_exp bits) * 2 ^ 10 + f32_frac bits div 2 ^ 13"
  by (rule float32_to_float16_normal)

theorem C6_encode_normal_truncates_witness:
  "0 < new_exp 0xC0067FFF \<and> new_exp 0xC0067FFF < 31
   \<and> unat (float32_to_float16 0xC0067FFF) = 1 * 2 ^ 15 + 16 * 2 ^ 10 + 51"
proof -
  have a: "0 < new_exp 0xC0067FFF" and b: "new_exp 0xC0067FFF < 31"
    by (simp_all add: new_exp_def f32_exp_def)
  have "f32_sign 0xC0067FFF = 1" "nat (new_exp 0xC0067FFF) = 16" "f32_frac 0xC0067FFF div 2 ^ 13 = 51"
    by (simp_all add: f32_sign_def new_exp_def f32_exp_def f32_frac_def)
  then show ?thesis
    using C6_encode_normal_truncates[OF a b] a b by simp
qed

section \<open>The two loops\<close>

lemma dequantize_loop_eq:
  "total_n \<le> length src \<Longrightarrow> total_n \<le> length dst \<Longrightarrow>
   dequantize_loop i total_n src scale dst
     = Inr (map (\<lambda>j. if i \<le> j \<and> j < total_n then dequantize_value (src ! j) scale else dst ! j)
              [0..<length dst])"
proof (induction i total_n src scale dst rule: dequantize_loop.induct)
  case (1 i total_n src scale dst)
  show ?case
  proof (cases "i < total_n")
    case False
    then have "map (\<lambda>j. if i \<le> j \<and> j < total_n then dequantize_value (src ! j) scale else dst ! j)
              [0..<length dst] = map (\<lambda>j. dst ! j) [0..<length dst]"
      by (intro map_cong) auto
    then show ?thesis using False by (simp add: map_nth)
  next
    case True
    let ?d = "dst[i := dequantize_value (src ! i) scale]"
    have b: "i < length src" "i < length dst" using True "1.prems" by auto
    have "dequantize_loop i total_n src scale dst = dequantize_loop (i + 1) total_n src scale ?d"
      using True b by simp
    also have "\<dots> = Inr (map (\<lambda>j. if i + 1 \<le> j \<and> j < total_n then dequantize_value (src ! j) scale else ?d ! j)
              [0..<length ?d])"
      using "1.IH"[OF True] b "1.prems" by simp
    also have "map (\<lambda>j. if i + 1 \<le> j \<and> j < total_n then dequantize_value (src ! j) scale else ?d ! j)
              [0..<length ?d] = map (\<lambda>j. if i \<le> j \<and> j < total_n then dequantize_value (src ! j) scale else dst ! j)
              [0..<length dst]"
      using True b by (auto simp: nth_list_update intro!: map_cong)
    finally show ?thesis .
  qed
qed

lemma dequantize_loop_exact:
  assumes "length src = total_n" "length dst = total_n"
  shows "dequantize_loop 0 total_n src scale dst = Inr (map (\<lambda>q. dequantize_value q scale) src)"
proof -
  have "dequantize_loop 0 total_n src scale dst
     = Inr (map (\<lambda>j. if 0 \<le> j \<and> j < total_n then dequantize_value (src ! j) scale else dst ! j)
              [0..<length dst])"
    using assms by (intro dequantize_loop_eq) auto
  also have "map (\<lambda>j. if 0 \<le> j \<and> j < total_n then dequantize_value (src ! j) scale else dst ! j)
              [0..<length dst] = map (\<lambda>j. dequantize_value (src ! j) scale) [0..<length src]"
    using assms by (intro map_cong) auto
  also have "\<dots> = map (\<lambda>q. dequantize_value q scale) (map (\<lambda>j. src ! j) [0..<length src])"
    by (simp add: comp_def)
  finally show ?thesis by (simp add: map_nth)
qed

lemma dequantize_loop_oob:
  "i < total_n \<Longrightarrow> length src < total_n \<or> length dst < total_n \<Longrightarrow>
   dequantize_loop i total_n src scale dst = Inl OutOfBounds"
proof (induction i total_n src scale dst rule: dequantize_loop.induct)
  case (1 i total_n src scale dst)
  show ?case
  proof (cases "i < length src \<and> i < length dst")
    case False
    then show ?thesis using "1.prems" by simp
  next
    case True
    then have "i + 1 < total_n" using "1.prems" by auto
    then show ?thesis using True "1.prems" "1.IH" by simp
  qed
qed

lemma quantize_loop_Inr:
  "total_n \<le> length src \<Longrightarrow> total_n \<le> length dst \<Longrightarrow>
   quantize_loop i total_n src scale dst = Inr r \<Longrightarrow>
   length r = length dst \<and>
   (\<forall>j < length dst. if i \<le> j \<and> j < total_n then quantize_value (src ! j) scale = Inr (r ! j)
                        else r ! j = dst ! j)"
proof (induction i total_n src scale dst rule: quantize_loop.induct)
  case (1 i total_n src scale dst)
  show ?case
  proof (cases "i < total_n")
    case False
    then show ?thesis using "1.prems" by auto
  next
    case True
    have b: "i < length src" "i < length dst" using True "1.prems" by auto
    obtain q where q: "quantize_value (src ! i) scale = Inr q"
      using "1.prems"(3) True b by (cases "quantize_value (src ! i) scale") simp_all
    let ?d = "dst[i := q]"
    have "quantize_loop (i + 1) total_n src scale ?d = Inr r"
      using "1.prems"(3) True b q by simp
    then have ih: "length r = length ?d \<and>
      (\<forall>j < length ?d. if i + 1 \<le> j \<and> j < total_n then quantize_value (src ! j) scale = Inr (r ! j)
                        else r ! j = ?d ! j)"
      using "1.IH"[OF True _ q] b "1.prems" by simp
    show ?thesis
    proof (intro conjI allI impI)
      show "length r = length dst" using ih by simp
    next
      fix j assume j: "j < length dst"
      show "if i \<le> j \<and> j < total_n then quantize_value (src ! j) scale = Inr (r ! j) else r ! j = dst ! j"
      proof (cases "j = i")
        case True
        then have "r ! j = q" using ih b by simp
        then show ?thesis using True q \<open>i < total_n\<close> by simp
      next
        case False
        then show ?thesis using ih j by (auto simp: nth_list_update)
      qed
    qed
  qed
qed

lemma quantize_loop_total:
  "total_n \<le> length src \<Longrightarrow> total_n \<le> length dst \<Longrightarrow>
   (\<forall>j. i \<le> j \<and> j < total_n \<longrightarrow> (\<exists>q. quantize_value (src ! j) scale = Inr q)) \<Longrightarrow>
   \<exists>r. quantize_loop i total_n src scale dst = Inr r"
proof (induction i total_n src scale dst rule: quantize_loop.induct)
  case (1 i total_n src scale dst)
  show ?case
  proof (cases "i < total_n")
    case False
    then show ?thesis by simp
  next
    case True
    have b: "i < length src" "i < length dst" using True "1.prems" by auto
    obtain q where q: "quantize_value (src ! i) scale = Inr q"
      using "1.prems"(3) True by auto
    have "\<exists>r. quantize_loop (i + 1) total_n src scale (dst[i := q]) = Inr r"
      using "1.IH"[OF True _ q] b "1.prems" by simp
    then show ?thesis using True b q by simp
  qed
qed

section \<open>Rounding to the nearest pattern\<close>

lemma mag_num_split:
  assumes "m < 2 ^ 23"
  shows "mag_num (e * 2 ^ 23 + m) = (if e = 0 then m else (2 ^ 23 + m) * 2 ^ (e - 1))"
  using assms by (simp add: mag_num_def)

lemma mag_num_Suc: "mag_num k < mag_num (Suc k)"
proof -
  define e where "e = k div 2 ^ 23"
  define m where "m = k mod 2 ^ 23"
  have k: "k = e * 2 ^ 23 + m" and m: "m < 2 ^ 23" by (simp_all add: e_def m_def)
  have mk: "mag_num k = (if e = 0 then m else (2 ^ 23 + m) * 2 ^ (e - 1))"
    unfolding k using m by (rule mag_num_split)
  show ?thesis
  proof (cases "Suc m < 2 ^ 23")
    case True
    have "Suc k = e * 2 ^ 23 + Suc m" by (simp add: k)
    then have "mag_num (Suc k) = (if e = 0 then Suc m else (2 ^ 23 + Suc m) * 2 ^ (e - 1))"
      using mag_num_split[OF True, of e] by simp
    then show ?thesis using mk by simp
  next
    case False
    then have m1: "Suc m = 2 ^ 23" using m by simp
    have "Suc k = Suc e * 2 ^ 23 + 0" using m1 by (simp add: k)
    then have s: "mag_num (Suc k) = 2 ^ 23 * 2 ^ e"
      using mag_num_split[of 0 "Suc e"] by simp
    show ?thesis
    proof (cases "e = 0")
      case True
      then show ?thesis using mk s m by simp
    next
      case False
      then obtain e' where e': "e = Suc e'" by (cases e) auto
      have "(2 ^ 23 + m) * 2 ^ e' < (2 ^ 23 + 2 ^ 23) * (2::nat) ^ e'"
        using m by simp
      also have "\<dots> = 2 ^ 23 * 2 ^ e" by (simp add: e')
      finally show ?thesis using mk s e' by simp
    qed
  qed
qed

lemma mag_num_strict_mono: "strict_mono mag_num"
  by (rule strict_mono_Suc_iff[THEN iffD2]) (simp add: mag_num_Suc)

lemma mag_num_less_iff: "mag_num a < mag_num b \<longleftrightarrow> a < b"
  using mag_num_strict_mono by (rule strict_mono_less)

lemma mag_num_le_iff: "mag_num a \<le> mag_num b \<longleftrightarrow> a \<le> b"
  using mag_num_strict_mono by (rule strict_mono_less_eq)

lemma mag_num_0: "mag_num 0 = 0" by (simp add: mag_num_def)

lemma floor_pat_bracket:
  assumes "mag_num k0 * d \<le> n * 2 ^ 149"
  shows "k0 \<le> floor_pat i k0 n d \<and> floor_pat i k0 n d < k0 + 2 ^ i
         \<and> mag_num (floor_pat i k0 n d) * d \<le> n * 2 ^ 149
         \<and> (floor_pat i k0 n d + 1 < k0 + 2 ^ i \<or> n * 2 ^ 149 < mag_num (k0 + 2 ^ i) * d
              \<longrightarrow> n * 2 ^ 149 < mag_num (floor_pat i k0 n d + 1) * d)"
  using assms
proof (induction i arbitrary: k0)
  case 0
  then show ?case by simp
next
  case (Suc i)
  show ?case
  proof (cases "mag_num (k0 + 2 ^ i) * d \<le> n * 2 ^ 149")
    case True
    have e: "floor_pat (Suc i) k0 n d = floor_pat i (k0 + 2 ^ i) n d" using True by simp
    have t: "k0 + 2 ^ i + 2 ^ i = k0 + 2 ^ Suc i" by simp
    have ih: "k0 + 2 ^ i \<le> floor_pat i (k0 + 2 ^ i) n d \<and> floor_pat i (k0 + 2 ^ i) n d < k0 + 2 ^ Suc i
         \<and> mag_num (floor_pat i (k0 + 2 ^ i) n d) * d \<le> n * 2 ^ 149
         \<and> (floor_pat i (k0 + 2 ^ i) n d + 1 < k0 + 2 ^ Suc i \<or> n * 2 ^ 149 < mag_num (k0 + 2 ^ Suc i) * d
              \<longrightarrow> n * 2 ^ 149 < mag_num (floor_pat i (k0 + 2 ^ i) n d + 1) * d)"
      using Suc.IH[OF True] unfolding t .
    then have "k0 \<le> floor_pat i (k0 + 2 ^ i) n d" by linarith
    then show ?thesis unfolding e using ih by blast
  next
    case False
    have e: "floor_pat (Suc i) k0 n d = floor_pat i k0 n d" using False by simp
    have ih: "k0 \<le> floor_pat i k0 n d \<and> floor_pat i k0 n d < k0 + 2 ^ i
         \<and> mag_num (floor_pat i k0 n d) * d \<le> n * 2 ^ 149
         \<and> (floor_pat i k0 n d + 1 < k0 + 2 ^ i \<or> n * 2 ^ 149 < mag_num (k0 + 2 ^ i) * d
              \<longrightarrow> n * 2 ^ 149 < mag_num (floor_pat i k0 n d + 1) * d)"
      using Suc.IH[OF Suc.prems] .
    then have "n * 2 ^ 149 < mag_num (floor_pat i k0 n d + 1) * d" using False by linarith
    moreover have "floor_pat i k0 n d < k0 + 2 ^ Suc i" using ih by simp
    ultimately show ?thesis unfolding e using ih by blast
  qed
qed

lemma floor_pat_unique:
  assumes lo: "mag_num k * d \<le> n * 2 ^ 149" and hi: "n * 2 ^ 149 < mag_num (k + 1) * d"
    and k: "k < 2 ^ 31"
  shows "floor_pat 31 0 n d = k"
proof -
  define k' where "k' = floor_pat 31 0 n d"
  have "mag_num 0 * d \<le> n * 2 ^ 149" by (simp add: mag_num_0)
  from floor_pat_bracket[OF this, of 31]
  have b: "k' < 2 ^ 31" "mag_num k' * d \<le> n * 2 ^ 149"
      "k' + 1 < 2 ^ 31 \<Longrightarrow> n * 2 ^ 149 < mag_num (k' + 1) * d"
    by (simp_all add: k'_def)
  have "\<not> k' < k"
  proof
    assume a: "k' < k"
    then have "k' + 1 < 2 ^ 31" using k by simp
    then have "n * 2 ^ 149 < mag_num (k' + 1) * d" by (rule b(3))
    also have "mag_num (k' + 1) \<le> mag_num k" using a by (simp add: mag_num_le_iff)
    then have "mag_num (k' + 1) * d \<le> mag_num k * d" by (rule mult_le_mono1)
    also note lo
    finally show False by (simp only: less_irrefl)
  qed
  moreover have "\<not> k < k'"
  proof
    assume a: "k < k'"
    then have "mag_num (k + 1) \<le> mag_num k'" by (simp add: mag_num_le_iff)
    then have "mag_num (k + 1) * d \<le> mag_num k' * d" by (rule mult_le_mono1)
    also note b(2)
    also note hi
    finally show False by (simp only: less_irrefl)
  qed
  ultimately show ?thesis by (simp add: k'_def)
qed

lemma round_mag_down:
  assumes "mag_num k * d \<le> n * 2 ^ 149" "n * 2 ^ 149 < mag_num (k + 1) * d" "k < 2 ^ 31"
    and "2 * (n * 2 ^ 149) < (mag_num k + mag_num (k + 1)) * d" "k \<le> 0x7F800000"
  shows "round_mag n d = k"
  using assms(4,5) unfolding round_mag_def floor_pat_unique[OF assms(1,2,3)] Let_def by simp

lemma round_mag_up:
  assumes "mag_num k * d \<le> n * 2 ^ 149" "n * 2 ^ 149 < mag_num (k + 1) * d" "k < 2 ^ 31"
    and "(mag_num k + mag_num (k + 1)) * d < 2 * (n * 2 ^ 149)" "k + 1 \<le> 0x7F800000"
  shows "round_mag n d = k + 1"
  using assms(4,5) unfolding round_mag_def floor_pat_unique[OF assms(1,2,3)] Let_def by simp

lemma round_mag_tie:
  assumes "mag_num k * d \<le> n * 2 ^ 149" "n * 2 ^ 149 < mag_num (k + 1) * d" "k < 2 ^ 31"
    and "(mag_num k + mag_num (k + 1)) * d = 2 * (n * 2 ^ 149)" "k + 1 \<le> 0x7F800000"
  shows "round_mag n d = (if even k then k else k + 1)"
  using assms(4,5) unfolding round_mag_def floor_pat_unique[OF assms(1,2,3)] Let_def by simp

lemma round_mag_exact:
  assumes "mag_num k * d = n * 2 ^ 149" "0 < d" "k < 0x7F800000"
  shows "round_mag n d = k"
proof -
  have "mag_num k * d < mag_num (k + 1) * d"
    using mag_num_Suc[of k] assms(2) by simp
  then have hi: "n * 2 ^ 149 < mag_num (k + 1) * d" using assms(1) by simp
  have "2 * (n * 2 ^ 149) < (mag_num k + mag_num (k + 1)) * d"
    using hi assms(1) by (simp add: algebra_simps)
  then show ?thesis using assms hi by (intro round_mag_down) simp_all
qed

section \<open>Patterns, values and the quantization step\<close>

lemma f32_abs_lt: "f32_abs b < 2 ^ 31" by (simp add: f32_abs_def)

lemma f32_decomp: "unat b = f32_sign b * 2 ^ 31 + f32_abs b"
  by (simp add: f32_sign_def f32_abs_def)

lemma f32_exp_abs: "f32_exp b = f32_abs b div 2 ^ 23"
proof -
  have "f32_abs b div 2 ^ 23 = drop_bit 23 (take_bit 31 (unat b))"
    by (simp add: f32_abs_def take_bit_eq_mod drop_bit_eq_div)
  also have "\<dots> = take_bit 8 (drop_bit 23 (unat b))" by (simp add: drop_bit_take_bit)
  finally show ?thesis by (simp add: f32_exp_def take_bit_eq_mod drop_bit_eq_div)
qed

lemma f32_frac_abs: "f32_frac b = f32_abs b mod 2 ^ 23"
proof -
  have "f32_abs b mod 2 ^ 23 = take_bit 23 (take_bit 31 (unat b))"
    by (simp add: f32_abs_def take_bit_eq_mod)
  also have "\<dots> = take_bit 23 (unat b)" by simp
  finally show ?thesis by (simp add: f32_frac_def take_bit_eq_mod)
qed

lemma f32_abs_fields: "f32_abs b = f32_exp b * 2 ^ 23 + f32_frac b"
  by (simp add: f32_exp_abs f32_frac_abs)

lemma is_finite_abs: "is_finite b \<longleftrightarrow> f32_abs b < 0x7F800000"
proof -
  have "f32_abs b div 2 ^ 23 < 255 \<longleftrightarrow> f32_abs b < 255 * 2 ^ 23"
    by (rule div_less_iff_less_mult) simp
  then show ?thesis by (simp add: is_finite_def f32_exp_abs)
qed

lemma f32_exp_255: "f32_exp b = 255 \<longleftrightarrow> \<not> is_finite b"
  using f32_exp_lt[of b] by (auto simp: is_finite_def)

lemma is_inf_abs: "is_inf b \<longleftrightarrow> f32_abs b = 0x7F800000"
proof
  assume "is_inf b"
  then have "f32_exp b = 255" "f32_frac b = 0" by (simp_all add: is_inf_def)
  then show "f32_abs b = 0x7F800000" by (simp add: f32_abs_fields)
next
  assume a: "f32_abs b = 0x7F800000"
  then show "is_inf b" by (simp add: is_inf_def f32_exp_abs f32_frac_abs)
qed

lemma is_nan_abs: "is_nan b \<longleftrightarrow> 0x7F800000 < f32_abs b"
proof -
  have "is_nan b \<longleftrightarrow> \<not> is_finite b \<and> \<not> is_inf b"
    by (auto simp: is_nan_def is_inf_def f32_exp_255)
  then show ?thesis by (auto simp: is_finite_abs is_inf_abs)
qed

lemma unat_f32_pack: "s < 2 \<Longrightarrow> k < 2 ^ 31 \<Longrightarrow> unat (f32_pack s k) = s * 2 ^ 31 + k"
proof -
  assume a: "s < 2" "k < 2 ^ 31"
  then have "s * 2 ^ 31 \<le> 1 * 2 ^ 31" by (intro mult_le_mono1) simp
  then have "s * 2 ^ 31 + k < 2 ^ 32" using a by simp
  moreover have "unat (f32_pack s k) = (s * 2 ^ 31 + k) mod 2 ^ 32"
    unfolding f32_pack_def by (simp only: unat_of_nat) simp
  ultimately show ?thesis by (simp only: mod_less)
qed

lemma f32_sign_pack: "s < 2 \<Longrightarrow> k < 2 ^ 31 \<Longrightarrow> f32_sign (f32_pack s k) = s"
  by (simp add: f32_sign_def unat_f32_pack)

lemma f32_abs_pack: "s < 2 \<Longrightarrow> k < 2 ^ 31 \<Longrightarrow> f32_abs (f32_pack s k) = k"
  by (simp add: f32_abs_def unat_f32_pack)

lemma round_mag_le: "round_mag n d \<le> 0x7F800000"
  by (simp add: round_mag_def Let_def)

lemma f32_nan_is_nan: "is_nan f32_nan"
  by (simp add: is_nan_def f32_nan_def f32_exp_def f32_frac_def)

lemma f32_of_int_127: "f32_of_int (127) = 0x42fe0000"
proof -
  have lo: "mag_num 1123942400 = 90630228486828452447201159060042941160304410624" and hi: "mag_num 1123942401 = 90630233931346323182216574474036660068595793920"
    by (simp_all add: mag_num_def)
  have r: "round_mag 127 (Suc 0) = 1123942400"
    by (rule round_mag_exact[of 1123942400]) (simp_all add: lo)
  show ?thesis
    by (simp add: f32_of_int_def f32_pack_def r)
qed

lemma f32_of_int_m128: "f32_of_int (-128) = 0xc3000000"
proof -
  have lo: "mag_num 1124073472 = 91343852333181432387730302044767688728495783936" and hi: "mag_num 1124073473 = 91343863222217173857761132872755126545078550528"
    by (simp_all add: mag_num_def)
  have r: "round_mag 128 (Suc 0) = 1124073472"
    by (rule round_mag_exact[of 1124073472]) (simp_all add: lo)
  show ?thesis
    by (simp add: f32_of_int_def f32_pack_def r)
qed

lemma mag_num_eq_0_iff: "mag_num k = 0 \<longleftrightarrow> k = 0"
  using mag_num_less_iff[of 0 k] by (auto simp: mag_num_0)

lemma f32_val_alt:
  "f32_val b = (if f32_sign b = 0 then real (mag_num (f32_abs b)) else - real (mag_num (f32_abs b))) / 2 ^ 149"
  by (simp add: f32_val_def)

lemma f32_key_less_iff: "f32_key a < f32_key b \<longleftrightarrow> f32_val a < f32_val b"
proof -
  define D :: real where "D = 2 ^ 149"
  have D: "0 < D" by (simp add: D_def)
  define ma where "ma = mag_num (f32_abs a)"
  define mb where "mb = mag_num (f32_abs b)"
  have va: "f32_val a = (if f32_sign a = 0 then real ma else - real ma) / D"
    and vb: "f32_val b = (if f32_sign b = 0 then real mb else - real mb) / D"
    by (simp_all add: f32_val_alt D_def ma_def mb_def)
  have lt: "f32_val a < f32_val b \<longleftrightarrow>
      (if f32_sign a = 0 then real ma else - real ma) < (if f32_sign b = 0 then real mb else - real mb)"
    unfolding va vb using D by (simp only: divide_less_cancel) auto
  have m1: "ma < mb \<longleftrightarrow> f32_abs a < f32_abs b" and m2: "mb < ma \<longleftrightarrow> f32_abs b < f32_abs a"
    and z1: "ma = 0 \<longleftrightarrow> f32_abs a = 0" and z2: "mb = 0 \<longleftrightarrow> f32_abs b = 0"
    by (simp_all add: ma_def mb_def mag_num_less_iff mag_num_eq_0_iff)
  show ?thesis
  proof (cases "f32_sign a = 0")
    case sa: True
    show ?thesis
    proof (cases "f32_sign b = 0")
      case True
      then show ?thesis using sa m1 by (simp add: lt f32_key_def)
    next
      case False
      have "\<not> real ma < - real mb" by linarith
      then show ?thesis using sa False by (simp add: lt f32_key_def)
    qed
  next
    case sa: False
    show ?thesis
    proof (cases "f32_sign b = 0")
      case True
      have "- real ma < real mb \<longleftrightarrow> \<not> (ma = 0 \<and> mb = 0)" by auto
      moreover have "- int (f32_abs a) < int (f32_abs b) \<longleftrightarrow> \<not> (f32_abs a = 0 \<and> f32_abs b = 0)" by auto
      ultimately show ?thesis using sa True z1 z2 by (simp add: lt f32_key_def)
    next
      case False
      then show ?thesis using sa m2 by (simp add: lt f32_key_def)
    qed
  qed
qed

lemma f32_val_127: "f32_val 0x42FE0000 = 127"
  by (simp add: f32_val_def f32_sign_def f32_abs_def mag_num_def)

lemma f32_val_m128: "f32_val 0xC3000000 = - 128"
  by (simp add: f32_val_def f32_sign_def f32_abs_def mag_num_def)

lemma trunc_f32_val: "trunc_toward_zero (f32_val w) = f32_trunc w"
proof -
  define m where "m = mag_num (f32_abs w)"
  have fl: "\<lfloor>real m / 2 ^ 149\<rfloor> = int (m div 2 ^ 149)"
    using floor_divide_of_nat_eq[of m "2 ^ 149", where 'a=real] by simp
  show ?thesis
  proof (cases "f32_sign w = 0")
    case True
    then show ?thesis using fl by (simp add: trunc_toward_zero_def f32_val_alt f32_trunc_def m_def)
  next
    case False
    have v: "f32_val w = - (real m / 2 ^ 149)" using False by (simp add: f32_val_alt m_def)
    have t: "f32_trunc w = - int (m div 2 ^ 149)" using False by (simp add: f32_trunc_def m_def)
    show ?thesis
    proof (cases "m = 0")
      case True
      then show ?thesis by (simp add: v t trunc_toward_zero_def)
    next
      case False
      then have "real m / 2 ^ 149 > 0" by simp
      then have "\<not> 0 \<le> - (real m / 2 ^ 149)" by linarith
      then show ?thesis unfolding v t trunc_toward_zero_def by (simp only: if_False ceiling_minus fl)
    qed
  qed
qed

lemma not_nan_127: "\<not> is_nan 0x42FE0000" and not_nan_m128: "\<not> is_nan 0xC3000000"
  by (simp_all add: is_nan_def f32_exp_def f32_frac_def)

lemma f32_lt_val: "\<not> is_nan a \<Longrightarrow> \<not> is_nan b \<Longrightarrow> f32_lt a b \<longleftrightarrow> f32_val a < f32_val b"
  by (simp add: f32_lt_def f32_key_less_iff)

lemma f32_val_inf:
  assumes "is_inf v"
  shows "f32_val v = (if f32_sign v = 0 then 2 ^ 128 else - (2 ^ 128))"
proof -
  have "f32_abs v = 0x7F800000" using assms by (simp add: is_inf_abs)
  then have "mag_num (f32_abs v) = 2 ^ 277" by (simp add: mag_num_def)
  then have "real (mag_num (f32_abs v)) / 2 ^ 149 = 2 ^ 128" by simp
  then show ?thesis unfolding f32_val_alt by simp
qed

lemma clamp_spec_eq: "clamp_spec v = max (- 128) (min 127 (f32_val v))"
proof (cases "is_inf v")
  case True
  then show ?thesis by (simp add: clamp_spec_def f32_val_inf)
next
  case False
  then show ?thesis by (simp add: clamp_spec_def)
qed

lemma sint_i8_of_int: "- 128 \<le> t \<Longrightarrow> t \<le> 127 \<Longrightarrow> sint (word_of_int t :: i8) = t"
  by (simp add: signed_of_int signed_take_bit_int_eq_self)

lemma trunc_toward_zero_bounds:
  assumes "- 128 \<le> r" "r \<le> 127"
  shows "- 128 \<le> trunc_toward_zero r \<and> trunc_toward_zero r \<le> 127"
proof (cases "0 \<le> r")
  case True
  then have "0 \<le> \<lfloor>r\<rfloor>" by simp
  moreover have "\<lfloor>r\<rfloor> \<le> 127" using assms(2) by (simp add: floor_le_iff)
  ultimately show ?thesis using True by (simp add: trunc_toward_zero_def)
next
  case False
  then have "\<lceil>r\<rceil> \<le> 0" by (simp add: ceiling_le_iff)
  moreover have "- 128 \<le> \<lceil>r\<rceil>" using assms(1) by (simp add: le_ceiling_iff)
  ultimately show ?thesis using False by (simp add: trunc_toward_zero_def)
qed

lemma f32_to_int8_in_range:
  assumes nn: "\<not> is_nan w" and lo: "- 128 \<le> f32_val w" and hi: "f32_val w \<le> 127"
  shows "f32_to_int8 w = Inr (word_of_int (f32_trunc w))
         \<and> - 128 \<le> f32_trunc w \<and> f32_trunc w \<le> 127"
proof -
  have ni: "\<not> is_inf w"
  proof
    assume "is_inf w"
    then have "f32_val w = 2 ^ 128 \<or> f32_val w = - (2 ^ 128)" by (simp add: f32_val_inf)
    then show False using lo hi by auto
  qed
  have b: "- 128 \<le> f32_trunc w \<and> f32_trunc w \<le> 127"
    using trunc_toward_zero_bounds[OF lo hi] by (simp only: trunc_f32_val)
  then show ?thesis using nn ni by (simp add: f32_to_int8_def)
qed

lemma quantize_value_spec:
  assumes nn: "\<not> is_nan (f32_div x s)"
  shows "\<exists>q. quantize_value x s = Inr q \<and> sint q = quantize_spec (f32_div x s)"
proof -
  define v where "v = f32_div x s"
  define v1 where "v1 = (if f32_gt v (f32_of_int 127) then f32_of_int 127 else v)"
  define v2 where "v2 = (if f32_lt v1 (f32_of_int (- 128)) then f32_of_int (- 128) else v1)"
  have q: "quantize_value x s = f32_to_int8 v2"
    by (simp add: quantize_value_def Let_def v_def v1_def v2_def)
  have nv: "\<not> is_nan v" using nn by (simp add: v_def)
  have g: "f32_gt v 0x42FE0000 \<longleftrightarrow> 127 < f32_val v"
    using nv by (simp add: f32_gt_def f32_lt_val not_nan_127 f32_val_127)
  have v1: "v1 = (if 127 < f32_val v then 0x42FE0000 else v)"
    unfolding v1_def f32_of_int_127 g ..
  have n1: "\<not> is_nan v1" using nv not_nan_127 by (simp add: v1)
  have val1: "f32_val v1 = min 127 (f32_val v)"
    using f32_val_127 by (simp add: v1)
  have l: "f32_lt v1 0xC3000000 \<longleftrightarrow> f32_val v1 < - 128"
    using n1 by (simp add: f32_lt_val not_nan_m128 f32_val_m128)
  have v2: "v2 = (if f32_val v1 < - 128 then 0xC3000000 else v1)"
    unfolding v2_def f32_of_int_m128 l ..
  have n2: "\<not> is_nan v2" using n1 not_nan_m128 by (simp add: v2)
  have val2: "f32_val v2 = max (- 128) (f32_val v1)"
    using f32_val_m128 by (simp add: v2)
  have c: "f32_val v2 = clamp_spec v" by (simp add: val2 val1 clamp_spec_eq)
  have lo: "- 128 \<le> f32_val v2" and hi: "f32_val v2 \<le> 127" by (simp_all add: val2 val1)
  from f32_to_int8_in_range[OF n2 lo hi]
  have r: "f32_to_int8 v2 = Inr (word_of_int (f32_trunc v2))"
    and b: "- 128 \<le> f32_trunc v2" "f32_trunc v2 \<le> 127" by simp_all
  have "sint (word_of_int (f32_trunc v2) :: i8) = f32_trunc v2" using b by (rule sint_i8_of_int)
  also have "\<dots> = quantize_spec v" by (simp add: quantize_spec_def c[symmetric] trunc_f32_val)
  finally show ?thesis using q r by (simp add: v_def)
qed

lemma quantize_value_nan:
  assumes "is_nan (f32_div x s)"
  shows "quantize_value x s = Inl ConversionUndefined"
proof -
  have "\<not> f32_gt (f32_div x s) (f32_of_int 127)" "\<not> f32_lt (f32_div x s) (f32_of_int (- 128))"
    using assms by (simp_all add: f32_gt_def f32_lt_def)
  then show ?thesis using assms by (simp add: quantize_value_def Let_def f32_to_int8_def)
qed

section \<open>The worked examples, evaluated\<close>

lemma f32_div_half: "f32_div 0x3f000000 0x3dcccccd = 0x40a00000"
proof -
  have n: "mag_num 1056964608 = 356811923176489970264571492362373784095686656" and d: "mag_num 1036831949 = 71362385698680390680846996795520405043412992"
    by (simp_all add: mag_num_def)
  have lo: "mag_num 1084227583 = 3568118891482532781707251460249130409188655104" and hi: "mag_num 1084227584 = 3568119231764899702645714923623737840956866560"
    by (simp_all add: mag_num_def)
  have r: "round_mag 356811923176489970264571492362373784095686656 71362385698680390680846996795520405043412992 = 1084227584"
    by (rule round_mag_up[of 1084227583, simplified]) (simp_all add: lo hi)
  show ?thesis
    by (simp add: f32_div_def Let_def f32_abs_def f32_sign_def f32_exp_def f32_frac_def is_nan_def is_inf_def is_zero_def f32_pack_def n d r)
qed

lemma quantize_value_half: "quantize_value 0x3f000000 0x3dcccccd = Inr 5"
proof -
  have g: "\<not> f32_gt 0x40a00000 0x42FE0000"
    by (simp add: f32_gt_def f32_lt_def f32_key_def f32_sign_def f32_abs_def is_nan_def f32_exp_def f32_frac_def)
  have l: "\<not> f32_lt 0x40a00000 0xC3000000"
    by (simp add: f32_gt_def f32_lt_def f32_key_def f32_sign_def f32_abs_def is_nan_def f32_exp_def f32_frac_def)
  have t: "f32_trunc 0x40a00000 = 5"
    by (simp add: f32_trunc_def f32_sign_def f32_abs_def mag_num_def)
  have n: "\<not> is_nan 0x40a00000" "\<not> is_inf 0x40a00000"
    by (simp_all add: is_nan_def is_inf_def f32_exp_def f32_frac_def)
  have c: "f32_to_int8 0x40a00000 = Inr 5"
    by (simp add: f32_to_int8_def t n)
  show ?thesis
    unfolding quantize_value_def Let_def f32_div_half f32_of_int_127 f32_of_int_m128
    using g l c by simp
qed

lemma f32_div_m1_2: "f32_div 0xbf99999a 0x3dcccccd = 0xc1400000"
proof -
  have n: "mag_num 1067030938 = 856348649651812620728817928007157825006469120" and d: "mag_num 1036831949 = 71362385698680390680846996795520405043412992"
    by (simp_all add: mag_num_def)
  have lo: "mag_num 1094713344 = 8563486156235759286349715816696970818296479744" and hi: "mag_num 1094713345 = 8563486836800493128226642743446185681832902656"
    by (simp_all add: mag_num_def)
  have r: "round_mag 856348649651812620728817928007157825006469120 71362385698680390680846996795520405043412992 = 1094713344"
    by (rule round_mag_down[of 1094713344]) (simp_all add: lo hi)
  show ?thesis
    by (simp add: f32_div_def Let_def f32_abs_def f32_sign_def f32_exp_def f32_frac_def is_nan_def is_inf_def is_zero_def f32_pack_def n d r)
qed

lemma quantize_value_m1_2: "quantize_value 0xbf99999a 0x3dcccccd = Inr (-12)"
proof -
  have g: "\<not> f32_gt 0xc1400000 0x42FE0000"
    by (simp add: f32_gt_def f32_lt_def f32_key_def f32_sign_def f32_abs_def is_nan_def f32_exp_def f32_frac_def)
  have l: "\<not> f32_lt 0xc1400000 0xC3000000"
    by (simp add: f32_gt_def f32_lt_def f32_key_def f32_sign_def f32_abs_def is_nan_def f32_exp_def f32_frac_def)
  have t: "f32_trunc 0xc1400000 = -12"
    by (simp add: f32_trunc_def f32_sign_def f32_abs_def mag_num_def)
  have n: "\<not> is_nan 0xc1400000" "\<not> is_inf 0xc1400000"
    by (simp_all add: is_nan_def is_inf_def f32_exp_def f32_frac_def)
  have c: "f32_to_int8 0xc1400000 = Inr (-12)"
    by (simp add: f32_to_int8_def t n)
  show ?thesis
    unfolding quantize_value_def Let_def f32_div_m1_2 f32_of_int_127 f32_of_int_m128
    using g l c by simp
qed

lemma f32_div_3_4: "f32_div 0x4059999a 0x3dcccccd = 0x42080000"
proof -
  have n: "mag_num 1079613850 = 2426321145656605181986778840739063218204311552" and d: "mag_num 1036831949 = 71362385698680390680846996795520405043412992"
    by (simp_all add: mag_num_def)
  have lo: "mag_num 1107820544 = 24263210776001317977990861480641417318506692608" and hi: "mag_num 1107820545 = 24263213498260253345498569187638276772652384256"
    by (simp_all add: mag_num_def)
  have r: "round_mag 2426321145656605181986778840739063218204311552 71362385698680390680846996795520405043412992 = 1107820544"
    by (rule round_mag_down[of 1107820544]) (simp_all add: lo hi)
  show ?thesis
    by (simp add: f32_div_def Let_def f32_abs_def f32_sign_def f32_exp_def f32_frac_def is_nan_def is_inf_def is_zero_def f32_pack_def n d r)
qed

lemma quantize_value_3_4: "quantize_value 0x4059999a 0x3dcccccd = Inr 34"
proof -
  have g: "\<not> f32_gt 0x42080000 0x42FE0000"
    by (simp add: f32_gt_def f32_lt_def f32_key_def f32_sign_def f32_abs_def is_nan_def f32_exp_def f32_frac_def)
  have l: "\<not> f32_lt 0x42080000 0xC3000000"
    by (simp add: f32_gt_def f32_lt_def f32_key_def f32_sign_def f32_abs_def is_nan_def f32_exp_def f32_frac_def)
  have t: "f32_trunc 0x42080000 = 34"
    by (simp add: f32_trunc_def f32_sign_def f32_abs_def mag_num_def)
  have n: "\<not> is_nan 0x42080000" "\<not> is_inf 0x42080000"
    by (simp_all add: is_nan_def is_inf_def f32_exp_def f32_frac_def)
  have c: "f32_to_int8 0x42080000 = Inr 34"
    by (simp add: f32_to_int8_def t n)
  show ?thesis
    unfolding quantize_value_def Let_def f32_div_3_4 f32_of_int_127 f32_of_int_m128
    using g l c by simp
qed

lemma f32_div_2_1: "f32_div 0x40066666 0x3dcccccd = 0x41a7ffff"
proof -
  have n: "mag_num 1074161254 = 1498610009284784490923507575247048406848241664" and d: "mag_num 1036831949 = 71362385698680390680846996795520405043412992"
    by (simp_all add: mag_num_def)
  have lo: "mag_num 1101529087 = 14986099412283111067358148825721269204945993728" and hi: "mag_num 1101529088 = 14986100773412578751112002679219698932018839552"
    by (simp_all add: mag_num_def)
  have r: "round_mag 1498610009284784490923507575247048406848241664 71362385698680390680846996795520405043412992 = 1101529087"
    by (rule round_mag_down[of 1101529087]) (simp_all add: lo hi)
  show ?thesis
    by (simp add: f32_div_def Let_def f32_abs_def f32_sign_def f32_exp_def f32_frac_def is_nan_def is_inf_def is_zero_def f32_pack_def n d r)
qed

lemma quantize_value_2_1: "quantize_value 0x40066666 0x3dcccccd = Inr 20"
proof -
  have g: "\<not> f32_gt 0x41a7ffff 0x42FE0000"
    by (simp add: f32_gt_def f32_lt_def f32_key_def f32_sign_def f32_abs_def is_nan_def f32_exp_def f32_frac_def)
  have l: "\<not> f32_lt 0x41a7ffff 0xC3000000"
    by (simp add: f32_gt_def f32_lt_def f32_key_def f32_sign_def f32_abs_def is_nan_def f32_exp_def f32_frac_def)
  have t: "f32_trunc 0x41a7ffff = 20"
    by (simp add: f32_trunc_def f32_sign_def f32_abs_def mag_num_def)
  have n: "\<not> is_nan 0x41a7ffff" "\<not> is_inf 0x41a7ffff"
    by (simp_all add: is_nan_def is_inf_def f32_exp_def f32_frac_def)
  have c: "f32_to_int8 0x41a7ffff = Inr 20"
    by (simp add: f32_to_int8_def t n)
  show ?thesis
    unfolding quantize_value_def Let_def f32_div_2_1 f32_of_int_127 f32_of_int_m128
    using g l c by simp
qed

lemma f32_div_12_8: "f32_div 0x414ccccd 0x3dcccccd = 0x43000000"
proof -
  have n: "mag_num 1095552205 = 9134385369431090007148415589826611845556862976" and d: "mag_num 1036831949 = 71362385698680390680846996795520405043412992"
    by (simp_all add: mag_num_def)
  have lo: "mag_num 1124073472 = 91343852333181432387730302044767688728495783936" and hi: "mag_num 1124073473 = 91343863222217173857761132872755126545078550528"
    by (simp_all add: mag_num_def)
  have r: "round_mag 9134385369431090007148415589826611845556862976 71362385698680390680846996795520405043412992 = 1124073472"
    by (rule round_mag_exact[of 1124073472]) (simp_all add: lo)
  show ?thesis
    by (simp add: f32_div_def Let_def f32_abs_def f32_sign_def f32_exp_def f32_frac_def is_nan_def is_inf_def is_zero_def f32_pack_def n d r)
qed

lemma quantize_value_12_8: "quantize_value 0x414ccccd 0x3dcccccd = Inr 127"
proof -
  have g: "f32_gt 0x43000000 0x42FE0000"
    by (simp add: f32_gt_def f32_lt_def f32_key_def f32_sign_def f32_abs_def is_nan_def f32_exp_def f32_frac_def)
  have l: "\<not> f32_lt 0x42fe0000 0xC3000000"
    by (simp add: f32_gt_def f32_lt_def f32_key_def f32_sign_def f32_abs_def is_nan_def f32_exp_def f32_frac_def)
  have t: "f32_trunc 0x42fe0000 = 127"
    by (simp add: f32_trunc_def f32_sign_def f32_abs_def mag_num_def)
  have n: "\<not> is_nan 0x42fe0000" "\<not> is_inf 0x42fe0000"
    by (simp_all add: is_nan_def is_inf_def f32_exp_def f32_frac_def)
  have c: "f32_to_int8 0x42fe0000 = Inr 127"
    by (simp add: f32_to_int8_def t n)
  show ?thesis
    unfolding quantize_value_def Let_def f32_div_12_8 f32_of_int_127 f32_of_int_m128
    using g l c by simp
qed

lemma f32_div_m13: "f32_div 0xc1500000 0x3dcccccd = 0xc3020000"
proof -
  have n: "mag_num 1095761920 = 9277110002588739226878858801421718386487853056" and d: "mag_num 1036831949 = 71362385698680390680846996795520405043412992"
    by (simp_all add: mag_num_def)
  have lo: "mag_num 1124204543 = 92771089136851650798757757186229746048295763968" and hi: "mag_num 1124204544 = 92771100025887392268788588014217183864878530560"
    by (simp_all add: mag_num_def)
  have r: "round_mag 9277110002588739226878858801421718386487853056 71362385698680390680846996795520405043412992 = 1124204544"
    by (rule round_mag_up[of 1124204543, simplified]) (simp_all add: lo hi)
  show ?thesis
    by (simp add: f32_div_def Let_def f32_abs_def f32_sign_def f32_exp_def f32_frac_def is_nan_def is_inf_def is_zero_def f32_pack_def n d r)
qed

lemma quantize_value_m13: "quantize_value 0xc1500000 0x3dcccccd = Inr (-128)"
proof -
  have g: "\<not> f32_gt 0xc3020000 0x42FE0000"
    by (simp add: f32_gt_def f32_lt_def f32_key_def f32_sign_def f32_abs_def is_nan_def f32_exp_def f32_frac_def)
  have l: "f32_lt 0xc3020000 0xC3000000"
    by (simp add: f32_gt_def f32_lt_def f32_key_def f32_sign_def f32_abs_def is_nan_def f32_exp_def f32_frac_def)
  have t: "f32_trunc 0xc3000000 = -128"
    by (simp add: f32_trunc_def f32_sign_def f32_abs_def mag_num_def)
  have n: "\<not> is_nan 0xc3000000" "\<not> is_inf 0xc3000000"
    by (simp_all add: is_nan_def is_inf_def f32_exp_def f32_frac_def)
  have c: "f32_to_int8 0xc3000000 = Inr (-128)"
    by (simp add: f32_to_int8_def t n)
  show ?thesis
    unfolding quantize_value_def Let_def f32_div_m13 f32_of_int_127 f32_of_int_m128
    using g l c by simp
qed

lemma f32_of_int_5: "f32_of_int (5) = 0x40a00000"
proof -
  have lo: "mag_num 1084227584 = 3568119231764899702645714923623737840956866560" and hi: "mag_num 1084227585 = 3568119572047266623584178386998345272725078016"
    by (simp_all add: mag_num_def)
  have r: "round_mag 5 (Suc 0) = 1084227584"
    by (rule round_mag_exact[of 1084227584]) (simp_all add: lo)
  show ?thesis
    by (simp add: f32_of_int_def f32_pack_def r)
qed

lemma f32_mul_5: "f32_mul 0x40a00000 0x3dcccccd = 0x3f000000"
proof -
  have n: "mag_num 1084227584 = 3568119231764899702645714923623737840956866560" and d: "mag_num 1036831949 = 71362385698680390680846996795520405043412992"
    by (simp_all add: mag_num_def)
  have lo: "mag_num 1056964608 = 356811923176489970264571492362373784095686656" and hi: "mag_num 1056964609 = 356811965711785835381879425284199713066713088"
    by (simp_all add: mag_num_def)
  have r: "round_mag 254629500836085940911932802690746306896118913744192888853227558614243775241714520314347520 509258994083621521567111422102344540262867098416484062659035112338595324940834176545849344 = 1056964608"
    by (rule round_mag_down[of 1056964608]) (simp_all add: lo hi)
  show ?thesis
    by (simp add: f32_mul_def Let_def f32_abs_def f32_sign_def f32_exp_def f32_frac_def is_nan_def is_inf_def is_zero_def f32_pack_def n d r)
qed

lemma dequantize_value_5: "dequantize_value 5 0x3dcccccd = 0x3f000000"
  by (simp add: dequantize_value_def f32_of_int_5 f32_mul_5)

lemma f32_of_int_m12: "f32_of_int (-12) = 0xc1400000"
proof -
  have lo: "mag_num 1094713344 = 8563486156235759286349715816696970818296479744" and hi: "mag_num 1094713345 = 8563486836800493128226642743446185681832902656"
    by (simp_all add: mag_num_def)
  have r: "round_mag 12 (Suc 0) = 1094713344"
    by (rule round_mag_exact[of 1094713344]) (simp_all add: lo)
  show ?thesis
    by (simp add: f32_of_int_def f32_pack_def r)
qed

lemma f32_mul_m12: "f32_mul 0xc1400000 0x3dcccccd = 0xbf99999a"
proof -
  have n: "mag_num 1094713344 = 8563486156235759286349715816696970818296479744" and d: "mag_num 1036831949 = 71362385698680390680846996795520405043412992"
    by (simp_all add: mag_num_def)
  have lo: "mag_num 1067030937 = 856348564581220890494202062163505967064416256" and hi: "mag_num 1067030938 = 856348649651812620728817928007157825006469120"
    by (simp_all add: mag_num_def)
  have r: "round_mag 611110802006606258188638726457791136550685392986062933247746140674185060580114848754434048 509258994083621521567111422102344540262867098416484062659035112338595324940834176545849344 = 1067030938"
    by (rule round_mag_up[of 1067030937, simplified]) (simp_all add: lo hi)
  show ?thesis
    by (simp add: f32_mul_def Let_def f32_abs_def f32_sign_def f32_exp_def f32_frac_def is_nan_def is_inf_def is_zero_def f32_pack_def n d r)
qed

lemma dequantize_value_m12: "dequantize_value (-12) 0x3dcccccd = 0xbf99999a"
  by (simp add: dequantize_value_def f32_of_int_m12 f32_mul_m12)

lemma f32_of_int_34: "f32_of_int (34) = 0x42080000"
proof -
  have lo: "mag_num 1107820544 = 24263210776001317977990861480641417318506692608" and hi: "mag_num 1107820545 = 24263213498260253345498569187638276772652384256"
    by (simp_all add: mag_num_def)
  have r: "round_mag 34 (Suc 0) = 1107820544"
    by (rule round_mag_exact[of 1107820544]) (simp_all add: lo)
  show ?thesis
    by (simp add: f32_of_int_def f32_pack_def r)
qed

lemma f32_mul_34: "f32_mul 0x42080000 0x3dcccccd = 0x4059999a"
proof -
  have n: "mag_num 1107820544 = 24263210776001317977990861480641417318506692608" and d: "mag_num 1036831949 = 71362385698680390680846996795520405043412992"
    by (simp_all add: mag_num_def)
  have lo: "mag_num 1079613849 = 2426320975515421721517547109051759502320205824" and hi: "mag_num 1079613850 = 2426321145656605181986778840739063218204311552"
    by (simp_all add: mag_num_def)
  have r: "round_mag 1731480605685384398201143058297074886893608613460511644201947398576857671643658738137563136 509258994083621521567111422102344540262867098416484062659035112338595324940834176545849344 = 1079613850"
    by (rule round_mag_up[of 1079613849, simplified]) (simp_all add: lo hi)
  show ?thesis
    by (simp add: f32_mul_def Let_def f32_abs_def f32_sign_def f32_exp_def f32_frac_def is_nan_def is_inf_def is_zero_def f32_pack_def n d r)
qed

lemma dequantize_value_34: "dequantize_value 34 0x3dcccccd = 0x4059999a"
  by (simp add: dequantize_value_def f32_of_int_34 f32_mul_34)

lemma f32_of_int_21: "f32_of_int (21) = 0x41a80000"
proof -
  have lo: "mag_num 1101529088 = 14986100773412578751112002679219698932018839552" and hi: "mag_num 1101529089 = 14986102134542046434865856532718128659091685376"
    by (simp_all add: mag_num_def)
  have r: "round_mag 21 (Suc 0) = 1101529088"
    by (rule round_mag_exact[of 1101529088]) (simp_all add: lo)
  show ?thesis
    by (simp add: f32_of_int_def f32_pack_def r)
qed

lemma f32_mul_21: "f32_mul 0x41a80000 0x3dcccccd = 0x40066667"
proof -
  have n: "mag_num 1101529088 = 14986100773412578751112002679219698932018839552" and d: "mag_num 1036831949 = 71362385698680390680846996795520405043412992"
    by (simp_all add: mag_num_def)
  have lo: "mag_num 1074161254 = 1498610009284784490923507575247048406848241664" and hi: "mag_num 1074161255 = 1498610179425967951392739306934352122732347392"
    by (simp_all add: mag_num_def)
  have r: "round_mag 1069443903511560951830117771301134488963699437725610133183555746179823856015200985320259584 509258994083621521567111422102344540262867098416484062659035112338595324940834176545849344 = 1074161255"
    by (rule round_mag_up[of 1074161254, simplified]) (simp_all add: lo hi)
  show ?thesis
    by (simp add: f32_mul_def Let_def f32_abs_def f32_sign_def f32_exp_def f32_frac_def is_nan_def is_inf_def is_zero_def f32_pack_def n d r)
qed

lemma dequantize_value_21: "dequantize_value 21 0x3dcccccd = 0x40066667"
  by (simp add: dequantize_value_def f32_of_int_21 f32_mul_21)

lemma quantize_loop_exact:
  assumes ls: "length src = total_n" and ld: "length dst = total_n"
    and el: "\<forall>j < total_n. quantize_value (src ! j) scale = Inr (qs ! j)" and lq: "length qs = total_n"
  shows "quantize_loop 0 total_n src scale dst = Inr qs"
proof -
  have "\<exists>r. quantize_loop 0 total_n src scale dst = Inr r"
    using ls ld el by (intro quantize_loop_total) auto
  then obtain r where r: "quantize_loop 0 total_n src scale dst = Inr r" ..
  have p: "length r = length dst \<and>
     (\<forall>j < length dst. if 0 \<le> j \<and> j < total_n then quantize_value (src ! j) scale = Inr (r ! j)
                        else r ! j = dst ! j)"
    using ls ld r by (intro quantize_loop_Inr) auto
  have "r = qs"
  proof (rule nth_equalityI)
    show "length r = length qs" using p ld lq by simp
  next
    fix j assume "j < length r"
    then have j: "j < total_n" using p ld by simp
    then have "quantize_value (src ! j) scale = Inr (r ! j)" using p ld by simp
    then show "r ! j = qs ! j" using el j by simp
  qed
  then show ?thesis using r by simp
qed

lemma less_4_cases: "j < 4 \<longleftrightarrow> j = 0 \<or> j = 1 \<or> j = 2 \<or> j = 3" for j :: nat
  by arith

lemma nth4:
  "(\<forall>j < 4. P j) \<longleftrightarrow> P 0 \<and> P 1 \<and> P 2 \<and> P (3::nat)"
  by (auto simp: less_4_cases)

lemma demo_quantize:
  "quantize_float32_to_int8
     \<lparr>type = TENSOR_FLOAT32, rows = 2, cols = 2,
      data = F32 [0x3F000000, 0xBF99999A, 0x4059999A, 0x40066666]\<rparr>
     \<lparr>type = TENSOR_INT8, rows = 2, cols = 2, data = I8 [a, b, c, d]\<rparr> 0x3DCCCCCD
   = Inr \<lparr>type = TENSOR_INT8, rows = 2, cols = 2, data = I8 [5, - 12, 34, 20]\<rparr>"
proof -
  have "quantize_loop 0 4 [0x3F000000, 0xBF99999A, 0x4059999A, 0x40066666] 0x3DCCCCCD [a, b, c, d]
      = Inr [5, - 12, 34, 20]"
    by (rule quantize_loop_exact)
       (simp_all add: nth4 quantize_value_half quantize_value_m1_2 quantize_value_3_4 quantize_value_2_1)
  then show ?thesis by (simp add: quantize_float32_to_int8_def total_of_def)
qed

lemma demo_dequantize:
  "dequantize_int8_to_float32
     \<lparr>type = TENSOR_INT8, rows = 2, cols = 2, data = I8 [5, - 12, 34, 21]\<rparr>
     \<lparr>type = TENSOR_FLOAT32, rows = 2, cols = 2, data = F32 [a, b, c, d]\<rparr> 0x3DCCCCCD
   = Inr \<lparr>type = TENSOR_FLOAT32, rows = 2, cols = 2,
          data = F32 [0x3F000000, 0xBF99999A, 0x4059999A, 0x40066667]\<rparr>"
proof -
  have "dequantize_loop 0 4 [5, - 12, 34, 21] 0x3DCCCCCD [a, b, c, d]
      = Inr (map (\<lambda>q. dequantize_value q 0x3DCCCCCD) [5, - 12, 34, 21])"
    by (rule dequantize_loop_exact) simp_all
  then show ?thesis
    by (simp add: dequantize_int8_to_float32_def total_of_def
        dequantize_value_5 dequantize_value_m12 dequantize_value_34 dequantize_value_21)
qed

lemma demo_clamp_high:
  "quantize_float32_to_int8
     \<lparr>type = TENSOR_FLOAT32, rows = 1, cols = 1, data = F32 [0x414CCCCD]\<rparr>
     \<lparr>type = TENSOR_INT8, rows = 1, cols = 1, data = I8 [a]\<rparr> 0x3DCCCCCD
   = Inr \<lparr>type = TENSOR_INT8, rows = 1, cols = 1, data = I8 [127]\<rparr>"
proof -
  have "quantize_loop 0 1 [0x414CCCCD] 0x3DCCCCCD [a] = Inr [127]"
    by (rule quantize_loop_exact) (simp_all add: quantize_value_12_8)
  then show ?thesis by (simp add: quantize_float32_to_int8_def total_of_def)
qed

lemma demo_clamp_low:
  "quantize_float32_to_int8
     \<lparr>type = TENSOR_FLOAT32, rows = 1, cols = 1, data = F32 [0xC1500000]\<rparr>
     \<lparr>type = TENSOR_INT8, rows = 1, cols = 1, data = I8 [a]\<rparr> 0x3DCCCCCD
   = Inr \<lparr>type = TENSOR_INT8, rows = 1, cols = 1, data = I8 [- 128]\<rparr>"
proof -
  have "quantize_loop 0 1 [0xC1500000] 0x3DCCCCCD [a] = Inr [- 128]"
    by (rule quantize_loop_exact) (simp_all add: quantize_value_m13)
  then show ?thesis by (simp add: quantize_float32_to_int8_def total_of_def)
qed

section \<open>Encoding and decoding in sequence\<close>

lemma roundtrip_fields:
  assumes "0 < new_exp x" "new_exp x < 31"
  shows "f32_sign (float16_to_float32 (float32_to_float16 x)) = f32_sign x"
    and "f32_abs (float16_to_float32 (float32_to_float16 x))
           = f32_exp x * 2 ^ 23 + (f32_frac x div 2 ^ 13) * 2 ^ 13"
proof -
  define s where "s = f32_sign x"
  define e where "e = nat (new_exp x)"
  define m where "m = f32_frac x div 2 ^ 13"
  define h where "h = float32_to_float16 x"
  have sb: "s < 2" unfolding s_def by (rule f32_sign_lt)
  have eb: "0 < e" "e < 31" using assms by (simp_all add: e_def)
  have mb: "m < 2 ^ 10"
    unfolding m_def using f32_frac_lt[of x] by (simp add: less_mult_imp_div_less)
  have ee: "f32_exp x = e + 112" using assms by (simp add: e_def new_exp_def)
  have uh: "unat h = s * 2 ^ 15 + e * 2 ^ 10 + m"
    unfolding h_def s_def e_def m_def using assms by (rule float32_to_float16_normal)
  have em: "e * 2 ^ 10 + m < 2 ^ 15"
  proof -
    have "e * 2 ^ 10 \<le> 30 * 2 ^ 10" using eb by (intro mult_le_mono1) simp
    then show ?thesis using mb by simp
  qed
  have low: "unat h mod 2 ^ 15 = e * 2 ^ 10 + m"
    unfolding uh using em by (simp add: add.assoc)
  have nz: "unat h mod 2 ^ 15 \<noteq> 0" unfolding low using eb by simp
  have hs: "f16_sign_bit h = s"
    unfolding f16_sign_bit_def uh using em by (simp add: add.assoc)
  have he: "f16_exp h = e"
  proof -
    have "(s * 2 ^ 15 + e * 2 ^ 10 + m) div 2 ^ 10 = s * 2 ^ 5 + e"
      using mb by simp
    moreover have "(s * 2 ^ 5 + e) mod 2 ^ 5 = e" using eb by simp
    ultimately show ?thesis unfolding f16_exp_def uh by simp
  qed
  have hm: "f16_frac h = m"
  proof -
    have "s * 2 ^ 15 + e * 2 ^ 10 + m = (s * 2 ^ 5 + e) * 2 ^ 10 + m" by simp
    then show ?thesis unfolding f16_frac_def uh using mb by (simp only: mod_mult_self3) simp
  qed
  have uy: "unat (float16_to_float32 h) = s * 2 ^ 31 + (e + 112) * 2 ^ 23 + m * 2 ^ 13"
    using float16_to_float32_nonzero[OF nz] by (simp add: hs he hm)
  have am: "(e + 112) * 2 ^ 23 + m * 2 ^ 13 < 2 ^ 31"
  proof -
    have "(e + 112) * 2 ^ 23 \<le> 142 * 2 ^ 23" using eb by (intro mult_le_mono1) simp
    moreover have "m * 2 ^ 13 < 2 ^ 10 * 2 ^ 13" using mb by (intro mult_less_mono1) simp_all
    ultimately show ?thesis by simp
  qed
  show "f32_sign (float16_to_float32 (float32_to_float16 x)) = f32_sign x"
    unfolding h_def[symmetric] f32_sign_def uy using am by (simp add: add.assoc s_def f32_sign_def)
  show "f32_abs (float16_to_float32 (float32_to_float16 x))
           = f32_exp x * 2 ^ 23 + (f32_frac x div 2 ^ 13) * 2 ^ 13"
    unfolding h_def[symmetric] f32_abs_def uy using am by (simp add: add.assoc ee m_def)
qed

lemma roundtrip_error:
  assumes "0 < new_exp x" "new_exp x < 31"
  shows "\<bar>f32_val (float16_to_float32 (float32_to_float16 x)) - f32_val x\<bar> < \<bar>f32_val x\<bar> / 2 ^ 10"
    and "\<bar>f32_val (float16_to_float32 (float32_to_float16 x))\<bar> \<le> \<bar>f32_val x\<bar>"
proof -
  define y where "y = float16_to_float32 (float32_to_float16 x)"
  define E where "E = f32_exp x"
  define M where "M = f32_frac x"
  define T where "T = (M div 2 ^ 13) * 2 ^ 13"
  define P :: real where "P = 2 ^ (E - 1) / 2 ^ 149"
  have Ep: "0 < E" using assms by (simp add: E_def new_exp_def)
  have P: "0 < P" by (simp add: P_def)
  have Mb: "M < 2 ^ 23" unfolding M_def by (rule f32_frac_lt)
  have MT: "M = T + M mod 2 ^ 13" by (simp add: T_def)
  have Tb: "T < 2 ^ 23" using MT Mb by linarith
  have r: "M mod 2 ^ 13 < 2 ^ 13" by simp
  have sy: "f32_sign y = f32_sign x" and ay: "f32_abs y = E * 2 ^ 23 + T"
    using roundtrip_fields[OF assms] by (simp_all add: y_def E_def T_def M_def)
  have ax: "f32_abs x = E * 2 ^ 23 + M" by (simp add: f32_abs_fields E_def M_def)
  have mx: "mag_num (f32_abs x) = (2 ^ 23 + M) * 2 ^ (E - 1)"
    unfolding ax using mag_num_split[OF Mb, of E] Ep by simp
  have my: "mag_num (f32_abs y) = (2 ^ 23 + T) * 2 ^ (E - 1)"
    unfolding ay using mag_num_split[OF Tb, of E] Ep by simp
  define g :: real where "g = (if f32_sign x = 0 then 1 else - 1)"
  have g: "\<bar>g\<bar> = 1" by (simp add: g_def)
  have vx: "f32_val x = g * ((2 ^ 23 + real M) * P)"
    by (simp add: f32_val_def mx g_def P_def)
  have vy: "f32_val y = g * ((2 ^ 23 + real T) * P)"
    by (simp add: f32_val_def my sy g_def P_def)
  have rm: "real M = real T + real (M mod 2 ^ 13)" using MT by (metis of_nat_add)
  have d: "f32_val y - f32_val x = - g * (real (M mod 2 ^ 13) * P)"
    unfolding vx vy rm by (simp add: algebra_simps)
  have ad: "\<bar>f32_val y - f32_val x\<bar> = real (M mod 2 ^ 13) * P"
    unfolding d using g P by (simp add: abs_mult)
  have avx: "\<bar>f32_val x\<bar> = (2 ^ 23 + real M) * P"
    unfolding vx using g P by (simp add: abs_mult)
  have avy: "\<bar>f32_val y\<bar> = (2 ^ 23 + real T) * P"
    unfolding vy using g P by (simp add: abs_mult)
  have "real (M mod 2 ^ 13) < 2 ^ 13" using r by (metis of_nat_less_iff of_nat_numeral of_nat_power)
  then have "real (M mod 2 ^ 13) * P < 2 ^ 13 * P" using P by simp
  also have "\<dots> = (2 ^ 23 * P) / 2 ^ 10" by simp
  also have "\<dots> \<le> ((2 ^ 23 + real M) * P) / 2 ^ 10"
    using P by (simp add: divide_right_mono algebra_simps)
  finally show "\<bar>f32_val (float16_to_float32 (float32_to_float16 x)) - f32_val x\<bar> < \<bar>f32_val x\<bar> / 2 ^ 10"
    unfolding y_def[symmetric] ad avx .
  have "real T \<le> real M" using MT by linarith
  then show "\<bar>f32_val (float16_to_float32 (float32_to_float16 x))\<bar> \<le> \<bar>f32_val x\<bar>"
    unfolding y_def[symmetric] avx avy using P by simp
qed

section \<open>The error of quantizing and dequantizing\<close>

lemma mag_num_gap:
  "mag_num (Suc k) = mag_num k + (if k div 2 ^ 23 = 0 then 1 else 2 ^ (k div 2 ^ 23 - 1))"
proof -
  define e where "e = k div 2 ^ 23"
  define m where "m = k mod 2 ^ 23"
  have k: "k = e * 2 ^ 23 + m" and m: "m < 2 ^ 23" by (simp_all add: e_def m_def)
  have mk: "mag_num k = (if e = 0 then m else (2 ^ 23 + m) * 2 ^ (e - 1))"
    unfolding k using m by (rule mag_num_split)
  have goal: "mag_num (Suc k) = mag_num k + (if e = 0 then 1 else 2 ^ (e - 1))"
  proof (cases "Suc m < 2 ^ 23")
    case True
    have "Suc k = e * 2 ^ 23 + Suc m" by (simp add: k)
    then have "mag_num (Suc k) = (if e = 0 then Suc m else (2 ^ 23 + Suc m) * 2 ^ (e - 1))"
      using mag_num_split[OF True, of e] by simp
    then show ?thesis using mk by (simp add: algebra_simps)
  next
    case False
    then have m1: "Suc m = 2 ^ 23" using m by simp
    have "Suc k = Suc e * 2 ^ 23 + 0" using m1 by (simp add: k)
    then have s: "mag_num (Suc k) = 2 ^ 23 * 2 ^ e"
      using mag_num_split[of 0 "Suc e"] by simp
    show ?thesis
    proof (cases "e = 0")
      case True
      then show ?thesis using mk s m1 by simp
    next
      case False
      then obtain e' where e': "e = Suc e'" by (cases e) auto
      have "(2 ^ 23 + m) * 2 ^ e' + 2 ^ e' = (2 ^ 23 + Suc m) * (2::nat) ^ e'"
        by (simp add: algebra_simps)
      also have "\<dots> = 2 ^ 23 * 2 ^ e" unfolding m1 by (simp add: e')
      finally show ?thesis using mk s e' by simp
    qed
  qed
  then show ?thesis by (simp add: e_def)
qed

lemma mag_num_gap_rel:
  assumes "2 ^ 23 \<le> k"
  shows "2 ^ 23 * (mag_num (Suc k) - mag_num k) \<le> mag_num k"
proof -
  define e where "e = k div 2 ^ 23"
  define m where "m = k mod 2 ^ 23"
  have k: "k = e * 2 ^ 23 + m" and m: "m < 2 ^ 23" by (simp_all add: e_def m_def)
  have e: "0 < e" using assms by (simp add: e_def div_greater_zero_iff)
  have mk: "mag_num k = (2 ^ 23 + m) * 2 ^ (e - 1)"
    unfolding k using mag_num_split[OF m, of e] e by simp
  have "mag_num (Suc k) - mag_num k = 2 ^ (e - 1)"
    using mag_num_gap[of k] e by (simp add: e_def)
  then show ?thesis unfolding mk by simp
qed

lemma mag_num_subnormal: "k \<le> 2 ^ 23 \<Longrightarrow> mag_num k = k"
  by (cases "k = 2 ^ 23") (simp_all add: mag_num_def)

text \<open>What a finite rounding result satisfies.\<close>

lemma round_mag_finite:
  assumes fin: "round_mag n d < 0x7F800000"
  defines "k0 \<equiv> floor_pat 31 0 n d"
  shows "mag_num k0 * d \<le> n * 2 ^ 149" and "n * 2 ^ 149 < mag_num (Suc k0) * d"
    and "round_mag n d = k0 \<and> 2 * (n * 2 ^ 149) \<le> (mag_num k0 + mag_num (Suc k0)) * d
         \<or> round_mag n d = Suc k0 \<and> (mag_num k0 + mag_num (Suc k0)) * d \<le> 2 * (n * 2 ^ 149)"
proof -
  have "mag_num 0 * d \<le> n * 2 ^ 149" by (simp add: mag_num_0)
  from floor_pat_bracket[OF this, of 31]
  have b: "k0 < 2 ^ 31" "mag_num k0 * d \<le> n * 2 ^ 149"
      "k0 + 1 < 2 ^ 31 \<Longrightarrow> n * 2 ^ 149 < mag_num (k0 + 1) * d"
    by (simp_all add: k0_def)
  define r where "r = (if 2 * (n * 2 ^ 149) < (mag_num k0 + mag_num (k0 + 1)) * d then k0
               else if (mag_num k0 + mag_num (k0 + 1)) * d < 2 * (n * 2 ^ 149) then k0 + 1
               else if even k0 then k0 else k0 + 1)"
  have rm: "round_mag n d = min r 0x7F800000"
    by (simp add: round_mag_def Let_def r_def k0_def)
  then have rk: "round_mag n d = r" and rf: "r < 0x7F800000" using fin by simp_all
  have "k0 \<le> r" by (simp add: r_def)
  then have "k0 + 1 < 2 ^ 31" using rf by simp
  then have hi: "n * 2 ^ 149 < mag_num (k0 + 1) * d" by (rule b(3))
  show "mag_num k0 * d \<le> n * 2 ^ 149" by (rule b(2))
  show "n * 2 ^ 149 < mag_num (Suc k0) * d" using hi by simp
  show "round_mag n d = k0 \<and> 2 * (n * 2 ^ 149) \<le> (mag_num k0 + mag_num (Suc k0)) * d
         \<or> round_mag n d = Suc k0 \<and> (mag_num k0 + mag_num (Suc k0)) * d \<le> 2 * (n * 2 ^ 149)"
    unfolding rk r_def by (auto simp: not_less)
qed

lemma round_mag_units:
  assumes fin: "round_mag n d < 0x7F800000" and d: "0 < d"
  defines "k0 \<equiv> floor_pat 31 0 n d"
  defines "K \<equiv> real (mag_num (round_mag n d))"
  defines "L \<equiv> real (mag_num k0)"
  defines "R \<equiv> real n * 2 ^ 149 / real d"
  shows "L \<le> R" and "L \<le> K"
    and "2 ^ 23 \<le> k0 \<Longrightarrow> 2 ^ 24 * \<bar>K - R\<bar> \<le> L"
    and "k0 < 2 ^ 23 \<Longrightarrow> 2 * \<bar>K - R\<bar> \<le> 1 \<and> real k0 \<le> R \<and> R < real k0 + 1"
proof -
  define H where "H = real (mag_num (Suc k0))"
  have dr: "0 < real d" using d by simp
  note f = round_mag_finite[OF fin, folded k0_def]
  have "real (mag_num k0 * d) \<le> real (n * 2 ^ 149)" using f(1) by (simp only: of_nat_le_iff)
  then have "L * real d \<le> real n * 2 ^ 149" by (simp add: L_def)
  then show LR: "L \<le> R" unfolding R_def using dr by (simp add: pos_le_divide_eq)
  have "real (n * 2 ^ 149) < real (mag_num (Suc k0) * d)" using f(2) by (simp only: of_nat_less_iff)
  then have "real n * 2 ^ 149 < H * real d" by (simp add: H_def)
  then have RH: "R < H" unfolding R_def using dr by (simp add: pos_divide_less_eq)
  have LH: "L \<le> H" using LR RH by linarith
  have c: "K = L \<and> 2 * R \<le> L + H \<or> K = H \<and> L + H \<le> 2 * R"
  proof -
    from f(3) show ?thesis
    proof
      assume a: "round_mag n d = k0 \<and> 2 * (n * 2 ^ 149) \<le> (mag_num k0 + mag_num (Suc k0)) * d"
      then have "real (2 * (n * 2 ^ 149)) \<le> real ((mag_num k0 + mag_num (Suc k0)) * d)"
        by (simp only: of_nat_le_iff)
      then have "2 * (real n * 2 ^ 149) \<le> (L + H) * real d" by (simp add: L_def H_def)
      then have "2 * R \<le> L + H" unfolding R_def using dr by (simp add: pos_divide_le_eq)
      then show ?thesis using a by (simp add: K_def L_def)
    next
      assume a: "round_mag n d = Suc k0 \<and> (mag_num k0 + mag_num (Suc k0)) * d \<le> 2 * (n * 2 ^ 149)"
      then have "real ((mag_num k0 + mag_num (Suc k0)) * d) \<le> real (2 * (n * 2 ^ 149))"
        by (simp only: of_nat_le_iff)
      then have "(L + H) * real d \<le> 2 * (real n * 2 ^ 149)" by (simp add: L_def H_def)
      then have "L + H \<le> 2 * R" unfolding R_def using dr by (simp add: pos_le_divide_eq)
      then show ?thesis using a by (simp add: K_def H_def)
    qed
  qed
  show "L \<le> K" using c LH by auto
  have e: "2 * \<bar>K - R\<bar> \<le> H - L" using c LR RH by auto
  show "2 ^ 24 * \<bar>K - R\<bar> \<le> L" if "2 ^ 23 \<le> k0"
  proof -
    have "2 ^ 23 * (mag_num (Suc k0) - mag_num k0) \<le> mag_num k0"
      using that by (rule mag_num_gap_rel)
    then have "real (2 ^ 23 * (mag_num (Suc k0) - mag_num k0)) \<le> real (mag_num k0)"
      by (simp only: of_nat_le_iff)
    moreover have "mag_num k0 \<le> mag_num (Suc k0)" using mag_num_Suc[of k0] by simp
    ultimately have "2 ^ 23 * (H - L) \<le> L" by (simp add: H_def L_def of_nat_diff)
    then show ?thesis using e by simp
  qed
  show "2 * \<bar>K - R\<bar> \<le> 1 \<and> real k0 \<le> R \<and> R < real k0 + 1" if "k0 < 2 ^ 23"
  proof -
    have "mag_num k0 = k0" "mag_num (Suc k0) = Suc k0"
      using that by (simp_all add: mag_num_subnormal)
    then have "L = real k0" "H = real k0 + 1" by (simp_all add: L_def H_def)
    then show ?thesis using e LR RH by simp
  qed
qed

lemma finite_not_nan_inf: "is_finite b \<Longrightarrow> \<not> is_nan b \<and> \<not> is_inf b"
  by (simp add: is_finite_abs is_nan_abs is_inf_abs)

lemma not_nan_inf_finite: "\<not> is_nan b \<Longrightarrow> \<not> is_inf b \<Longrightarrow> is_finite b"
  by (simp add: is_finite_abs is_nan_abs is_inf_abs)

lemma f32_div_finite:
  assumes "is_finite x" "is_finite s" "\<not> is_zero s"
  shows "f32_div x s = f32_pack ((f32_sign x + f32_sign s) mod 2)
                         (round_mag (mag_num (f32_abs x)) (mag_num (f32_abs s)))"
  using assms finite_not_nan_inf[of x] finite_not_nan_inf[of s] by (simp add: f32_div_def Let_def)

lemma f32_mul_finite:
  assumes "is_finite a" "is_finite s"
  shows "f32_mul a s = f32_pack ((f32_sign a + f32_sign s) mod 2)
                         (round_mag (mag_num (f32_abs a) * mag_num (f32_abs s)) (2 ^ 298))"
  using assms finite_not_nan_inf[of a] finite_not_nan_inf[of s] by (simp add: f32_mul_def Let_def)

lemma pattern_of_nat:
  assumes "0 < j" "j < 2 ^ 24"
  shows "\<exists>k. mag_num k = j * 2 ^ 149 \<and> k < 0x7F800000"
proof -
  obtain p where p: "2 ^ p \<le> j" "j < 2 ^ (p + 1)"
    using ex_power_ivl1[of 2 j] assms(1) by auto
  have "(2::nat) ^ p < 2 ^ 24" using p(1) assms(2) by linarith
  then have p24: "p < 24" by (rule power_less_imp_less_exp[rotated]) simp
  define m where "m = (j - 2 ^ p) * 2 ^ (23 - p)"
  define k where "k = (p + 127) * 2 ^ 23 + m"
  have "j - 2 ^ p < 2 ^ p" using p by simp
  then have "m < 2 ^ p * 2 ^ (23 - p)" unfolding m_def by (intro mult_less_mono1) simp_all
  also have "\<dots> = 2 ^ 23" using p24 by (simp flip: power_add)
  finally have mb: "m < 2 ^ 23" .
  have "2 ^ 23 + m = 2 ^ p * 2 ^ (23 - p) + (j - 2 ^ p) * 2 ^ (23 - p)"
    using p24 by (simp add: m_def flip: power_add)
  also have "\<dots> = (2 ^ p + (j - 2 ^ p)) * 2 ^ (23 - p)" by (simp only: add_mult_distrib)
  also have "\<dots> = j * 2 ^ (23 - p)" using p(1) by simp
  finally have sig: "2 ^ 23 + m = j * 2 ^ (23 - p)" .
  have "mag_num k = (2 ^ 23 + m) * 2 ^ (p + 126)"
    unfolding k_def using mag_num_split[OF mb, of "p + 127"] by simp
  also have "\<dots> = j * (2 ^ (23 - p) * 2 ^ (p + 126))" unfolding sig by (simp only: mult.assoc)
  also have "2 ^ (23 - p) * 2 ^ (p + 126) = (2::nat) ^ 149" using p24 by (simp flip: power_add)
  finally have mk: "mag_num k = j * 2 ^ 149" .
  have "(p + 127) * 2 ^ 23 \<le> 150 * (2::nat) ^ 23" using p24 by (intro mult_le_mono1) simp
  then have "k < 0x7F800000" unfolding k_def using mb by simp
  then show ?thesis using mk by blast
qed

lemma round_mag_of_nat:
  assumes "j < 2 ^ 24"
  shows "mag_num (round_mag j 1) = j * 2 ^ 149 \<and> round_mag j 1 < 0x7F800000"
proof (cases "j = 0")
  case True
  have "round_mag 0 1 = 0" by (rule round_mag_exact) (simp_all add: mag_num_0)
  then show ?thesis using True by (simp add: mag_num_0)
next
  case False
  then obtain k where k: "mag_num k = j * 2 ^ 149" "k < 0x7F800000"
    using pattern_of_nat[of j] assms by auto
  have "round_mag j 1 = k" using k by (intro round_mag_exact) simp_all
  then show ?thesis using k by simp
qed

lemma f32_of_int_exact:
  assumes "\<bar>i\<bar> < 2 ^ 24"
  shows "f32_sign (f32_of_int i) = (if i < 0 then 1 else 0)"
    and "mag_num (f32_abs (f32_of_int i)) = nat \<bar>i\<bar> * 2 ^ 149"
    and "is_finite (f32_of_int i)"
proof -
  have j: "nat \<bar>i\<bar> < 2 ^ 24" using assms by (simp add: nat_less_iff)
  note r = round_mag_of_nat[OF j]
  have kb: "round_mag (nat \<bar>i\<bar>) 1 < 2 ^ 31" using r by simp
  have ab: "f32_abs (f32_of_int i) = round_mag (nat \<bar>i\<bar>) 1"
    unfolding f32_of_int_def using kb by (intro f32_abs_pack) simp_all
  show "f32_sign (f32_of_int i) = (if i < 0 then 1 else 0)"
    unfolding f32_of_int_def using kb by (subst f32_sign_pack) simp_all
  show "mag_num (f32_abs (f32_of_int i)) = nat \<bar>i\<bar> * 2 ^ 149"
    unfolding ab using r by simp
  show "is_finite (f32_of_int i)" unfolding is_finite_abs ab using r by simp
qed

lemma nat_div_floor_bounds:
  fixes m d :: nat
  assumes "0 < d"
  shows "real (m div d) \<le> real m / real d" and "real m / real d < real (m div d) + 1"
proof -
  have f: "\<lfloor>real m / real d\<rfloor> = int (m div d)"
    using floor_divide_of_nat_eq[of m d, where 'a=real] by simp
  have "of_int \<lfloor>real m / real d\<rfloor> \<le> real m / real d" by (rule of_int_floor_le)
  then show "real (m div d) \<le> real m / real d" unfolding f by simp
  have "real m / real d < of_int \<lfloor>real m / real d\<rfloor> + 1" by linarith
  then show "real m / real d < real (m div d) + 1" unfolding f by simp
qed

text \<open>The quotient of two finite values, rounded: at most 128 in magnitude, it is within
  \<open>2 ^ -17\<close> of the exact quotient.\<close>

lemma round_quotient_error:
  fixes D :: real
  assumes fin: "round_mag n d < 0x7F800000" and d: "0 < d" and D: "D = 2 ^ 149"
    and small: "real (mag_num (round_mag n d)) / D \<le> 128"
  shows "\<bar>real (mag_num (round_mag n d)) / D - real n / real d\<bar> \<le> 1 / 2 ^ 17"
proof -
  define k0 where "k0 = floor_pat 31 0 n d"
  define K where "K = real (mag_num (round_mag n d))"
  define R where "R = real n * D / real d"
  define L where "L = real (mag_num k0)"
  have Dp: "0 < D" by (simp add: D)
  have D16: "2 ^ 16 \<le> D" unfolding D by (rule power_increasing) simp_all
  note u = round_mag_units[OF fin d, folded D, folded k0_def K_def R_def L_def]
  have e: "\<bar>K / D - real n / real d\<bar> = \<bar>K - R\<bar> / D"
  proof -
    have "K / D - real n / real d = (K - R) / D" using Dp by (simp add: R_def field_simps)
    then show ?thesis using Dp by (simp add: abs_divide)
  qed
  have "\<bar>K - R\<bar> / D \<le> 1 / 2 ^ 17"
  proof (cases "2 ^ 23 \<le> k0")
    case True
    then have "2 ^ 24 * \<bar>K - R\<bar> \<le> L" by (rule u(3))
    also have "L \<le> K" by (rule u(2))
    also have "K \<le> 128 * D" using small Dp by (simp add: K_def pos_divide_le_eq)
    finally have "\<bar>K - R\<bar> \<le> D / 2 ^ 17" by simp
    then have "\<bar>K - R\<bar> / D \<le> (D / 2 ^ 17) / D" using Dp by (simp only: divide_right_mono less_imp_le)
    then show ?thesis using Dp by simp
  next
    case False
    then have "k0 < 2 ^ 23" by simp
    then have "2 * \<bar>K - R\<bar> \<le> 1" using u(4) by simp
    also have "1 \<le> D / 2 ^ 16" using D16 by simp
    finally have "\<bar>K - R\<bar> \<le> D / 2 ^ 17" by simp
    then have "\<bar>K - R\<bar> / D \<le> (D / 2 ^ 17) / D" using Dp by (simp only: divide_right_mono less_imp_le)
    then show ?thesis using Dp by simp
  qed
  then have "\<bar>K / D - real n / real d\<bar> \<le> 1 / 2 ^ 17" by (simp only: e)
  then show ?thesis by (simp only: K_def)
qed

text \<open>The product of an integer and a finite value, rounded to a finite value: within
  relative error \<open>2 ^ -24\<close>, and exact in the subnormal range.\<close>

lemma round_product_error:
  fixes D :: real
  assumes fin: "round_mag (j * 2 ^ 149 * ms) (2 ^ 298) < 0x7F800000" and D: "D = 2 ^ 149"
  shows "\<bar>real (mag_num (round_mag (j * 2 ^ 149 * ms) (2 ^ 298))) / D - real j * (real ms / D)\<bar>
           \<le> real j * (real ms / D) / 2 ^ 24"
proof -
  define n where "n = j * 2 ^ 149 * ms"
  define d :: nat where "d = 2 ^ 298"
  define k0 where "k0 = floor_pat 31 0 n d"
  define K where "K = real (mag_num (round_mag n d))"
  define L where "L = real (mag_num k0)"
  have Dp: "0 < D" by (simp add: D)
  have d: "0 < d" by (simp add: d_def)
  have dD: "real d = D * D" unfolding d_def D by (simp flip: power_add)
  have nD: "real n = real (j * ms) * D" unfolding n_def D by simp
  have R: "real n * D / real d = real (j * ms)"
    unfolding dD nD using Dp by simp
  have fin': "round_mag n d < 0x7F800000" using fin by (simp only: n_def d_def)
  note u = round_mag_units[OF fin' d, folded D, unfolded R, folded k0_def K_def L_def]
  have "\<bar>K - real (j * ms)\<bar> \<le> real (j * ms) / 2 ^ 24"
  proof (cases "2 ^ 23 \<le> k0")
    case True
    then have "2 ^ 24 * \<bar>K - real (j * ms)\<bar> \<le> L" by (rule u(3))
    also have "L \<le> real (j * ms)" by (rule u(1))
    finally show ?thesis by simp
  next
    case False
    then have k: "k0 < 2 ^ 23" by simp
    have h: "2 * \<bar>K - real (j * ms)\<bar> \<le> 1" using u(4)[OF k] by simp
    have "mag_num (round_mag n d) = j * ms"
    proof (rule ccontr)
      assume "mag_num (round_mag n d) \<noteq> j * ms"
      then have "1 \<le> \<bar>int (mag_num (round_mag n d)) - int (j * ms)\<bar>" by linarith
      then have "1 \<le> \<bar>real (mag_num (round_mag n d)) - real (j * ms)\<bar>"
        by (metis of_int_1_le_iff of_int_abs of_int_diff of_int_of_nat_eq)
      then show False using h by (simp add: K_def)
    qed
    then show ?thesis by (simp add: K_def)
  qed
  then have "\<bar>K - real (j * ms)\<bar> / D \<le> (real (j * ms) / 2 ^ 24) / D"
    using Dp by (simp only: divide_right_mono less_imp_le)
  moreover have "\<bar>K - real (j * ms)\<bar> / D = \<bar>K / D - real j * (real ms / D)\<bar>"
  proof -
    have "K / D - real j * (real ms / D) = (K - real (j * ms)) / D"
      using Dp by (simp add: field_simps)
    then show ?thesis using Dp by (simp add: abs_divide)
  qed
  moreover have "(real (j * ms) / 2 ^ 24) / D = real j * (real ms / D) / 2 ^ 24" by simp
  ultimately show ?thesis by (simp only: K_def n_def d_def)
qed

lemma dequantize_quantize_error:
  assumes fx: "is_finite x" and fs: "is_finite s" and ps: "f32_sign s = 0" and nz: "\<not> is_zero s"
    and ng: "\<not> f32_gt (f32_div x s) (f32_of_int 127)"
    and nl: "\<not> f32_lt (f32_div x s) (f32_of_int (- 128))"
  shows "\<exists>q. quantize_value x s = Inr q \<and>
           (is_finite (dequantize_value q s) \<longrightarrow>
              \<bar>f32_val (dequantize_value q s) - f32_val x\<bar> < f32_val s * (1 + 1 / 2 ^ 16))"
proof -
  define D :: real where "D = 2 ^ 149"
  have Dp: "0 < D" by (simp add: D_def)
  define mx where "mx = mag_num (f32_abs x)"
  define ms where "ms = mag_num (f32_abs s)"
  define sx where "sx = f32_sign x"
  define kv where "kv = round_mag mx ms"
  define v where "v = f32_div x s"
  define S where "S = real ms / D"
  define r where "r = real mx / real ms"
  define V where "V = real (mag_num kv) / D"
  have sxb: "sx < 2" unfolding sx_def by (rule f32_sign_lt)
  have msp: "0 < ms" using nz mag_num_eq_0_iff[of "f32_abs s"] by (simp add: ms_def is_zero_def)
  have Sp: "0 < S" using msp Dp by (simp add: S_def)
  have v_eq: "v = f32_pack sx kv"
    unfolding v_def f32_div_finite[OF fx fs nz] using sxb
    by (simp add: ps sx_def kv_def mx_def ms_def)
  have kvb: "kv \<le> 0x7F800000" unfolding kv_def by (rule round_mag_le)
  then have kv31: "kv < 2 ^ 31" by simp
  have sv: "f32_sign v = sx" unfolding v_eq using sxb kv31 by (rule f32_sign_pack)
  have av: "f32_abs v = kv" unfolding v_eq using sxb kv31 by (rule f32_abs_pack)
  have nnv: "\<not> is_nan v" using kvb by (simp add: is_nan_abs av)
  have vv: "f32_val v = (if sx = 0 then V else - V)"
    by (simp add: f32_val_alt sv av V_def D_def)
  have hi: "f32_val v \<le> 127"
    using ng nnv unfolding v_def[symmetric] f32_of_int_127
    by (simp add: f32_gt_def f32_lt_val not_nan_127 f32_val_127)
  have lo: "- 128 \<le> f32_val v"
    using nl nnv unfolding v_def[symmetric] f32_of_int_m128
    by (simp add: f32_lt_val not_nan_m128 f32_val_m128)
  have q1: "quantize_value x s = f32_to_int8 v"
    using ng nl by (simp add: quantize_value_def Let_def v_def)
  from f32_to_int8_in_range[OF nnv lo hi]
  have q2: "f32_to_int8 v = Inr (word_of_int (f32_trunc v))"
    and tb: "- 128 \<le> f32_trunc v" "f32_trunc v \<le> 127" by simp_all
  define t where "t = f32_trunc v"
  define q :: i8 where "q = word_of_int t"
  have sq: "sint q = t" unfolding q_def using tb by (intro sint_i8_of_int) (simp_all add: t_def)
  have qv: "quantize_value x s = Inr q" by (simp add: q1 q2 q_def t_def)
  have "\<bar>f32_val (dequantize_value q s) - f32_val x\<bar> < f32_val s * (1 + 1 / 2 ^ 16)"
    if fy: "is_finite (dequantize_value q s)"
  proof -
    have V128: "V \<le> 128" and V0: "0 \<le> V"
      using lo hi vv Dp by (auto simp: V_def split: if_splits)
    have kvf: "kv < 0x7F800000"
    proof (rule ccontr)
      assume "\<not> kv < 0x7F800000"
      then have "is_inf v" using kvb by (simp add: is_inf_abs av)
      then have "f32_val v = 2 ^ 128 \<or> f32_val v = - (2 ^ 128)" by (simp add: f32_val_inf)
      then show False using lo hi by auto
    qed
    define j where "j = mag_num kv div 2 ^ 149"
    have jV: "real j \<le> V" "V < real j + 1"
      using nat_div_floor_bounds[of "2 ^ 149" "mag_num kv"] by (simp_all add: j_def V_def D_def)
    have j128: "real j \<le> 128" using jV(1) V128 by linarith
    have tj: "t = (if sx = 0 then int j else - int j)"
      by (simp add: t_def f32_trunc_def sv av j_def)
    have aj: "nat \<bar>t\<bar> = j" by (simp add: tj)
    have t24: "\<bar>t\<bar> < 2 ^ 24" using tb by (simp add: t_def)
    define a where "a = f32_of_int t"
    have sa: "f32_sign a = (if t < 0 then 1 else 0)" and ma: "mag_num (f32_abs a) = j * 2 ^ 149"
      and fa: "is_finite a"
      using f32_of_int_exact[OF t24] by (simp_all add: a_def aj)
    define ky where "ky = round_mag (j * 2 ^ 149 * ms) (2 ^ 298)"
    define y where "y = dequantize_value q s"
    have y_eq: "y = f32_pack (f32_sign a) ky"
      unfolding y_def dequantize_value_def sq a_def[symmetric] f32_mul_finite[OF fa fs]
      by (simp add: ps sa ma ky_def ms_def)
    have kyb: "ky \<le> 0x7F800000" unfolding ky_def by (rule round_mag_le)
    then have ky31: "ky < 2 ^ 31" by simp
    have sab: "f32_sign a < 2" by (rule f32_sign_lt)
    have sy: "f32_sign y = f32_sign a" unfolding y_eq using sab ky31 by (rule f32_sign_pack)
    have ay: "f32_abs y = ky" unfolding y_eq using sab ky31 by (rule f32_abs_pack)
    have kyf: "ky < 0x7F800000" using fy by (simp add: is_finite_abs y_def[symmetric] ay)
    define Y where "Y = real (mag_num ky) / D"
    have e1: "\<bar>V - r\<bar> \<le> 1 / 2 ^ 17"
      unfolding V_def r_def kv_def
      by (rule round_quotient_error) (use kvf msp V128 in \<open>simp_all add: kv_def V_def D_def\<close>)
    have e2: "\<bar>Y - real j * S\<bar> \<le> real j * S / 2 ^ 24"
      unfolding Y_def S_def ky_def
      by (rule round_product_error) (use kyf in \<open>simp_all add: ky_def D_def\<close>)
    have Y0: "j = 0 \<Longrightarrow> Y = 0" using e2 by simp
    have vy: "f32_val y = (if sx = 0 then Y else - Y)"
    proof (cases "j = 0")
      case True
      then show ?thesis using Y0 by (simp add: f32_val_alt ay Y_def D_def)
    next
      case False
      then have "(t < 0) = (sx \<noteq> 0)" by (auto simp: tj)
      then show ?thesis by (simp add: f32_val_alt sy sa ay Y_def D_def)
    qed
    have vx: "f32_val x = (if sx = 0 then r * S else - (r * S))"
      using msp Dp by (simp add: f32_val_alt sx_def mx_def r_def S_def D_def)
    have vs: "f32_val s = S" by (simp add: f32_val_alt ps ms_def S_def D_def)
    have "\<bar>f32_val y - f32_val x\<bar> = \<bar>Y - r * S\<bar>"
    proof (cases "sx = 0")
      case True
      then show ?thesis by (simp add: vy vx)
    next
      case False
      have "\<bar>- Y - - (r * S)\<bar> = \<bar>Y - r * S\<bar>" by linarith
      then show ?thesis using False by (simp add: vy vx)
    qed
    also have "\<dots> \<le> \<bar>Y - real j * S\<bar> + S * \<bar>real j - V\<bar> + S * \<bar>V - r\<bar>"
    proof -
      have "Y - r * S = (Y - real j * S) + S * (real j - V) + S * (V - r)" by (simp add: algebra_simps)
      then have "\<bar>Y - r * S\<bar> \<le> \<bar>Y - real j * S\<bar> + \<bar>S * (real j - V)\<bar> + \<bar>S * (V - r)\<bar>"
        by linarith
      then show ?thesis using Sp by (simp add: abs_mult)
    qed
    also have "\<dots> < S / 2 ^ 17 + S + S / 2 ^ 17"
    proof -
      have "real j * S / 2 ^ 24 \<le> 128 * S / 2 ^ 24"
        using j128 Sp by (intro divide_right_mono mult_right_mono) simp_all
      also have "128 * S / 2 ^ 24 = S / 2 ^ 17" by simp
      finally have a1: "\<bar>Y - real j * S\<bar> \<le> S / 2 ^ 17" using e2 by linarith
      have "\<bar>real j - V\<bar> < 1" using jV by linarith
      then have a2: "S * \<bar>real j - V\<bar> < S" using Sp by simp
      have "S * \<bar>V - r\<bar> \<le> S * (1 / 2 ^ 17)" using e1 Sp by (intro mult_left_mono) simp_all
      then have a3: "S * \<bar>V - r\<bar> \<le> S / 2 ^ 17" by simp
      show ?thesis using a1 a2 a3 by linarith
    qed
    also have "\<dots> = S * (1 + 1 / 2 ^ 16)" by (simp add: algebra_simps)
    finally show ?thesis by (simp add: y_def vs)
  qed
  then show ?thesis using qv by blast
qed

section \<open>Further values, evaluated\<close>

lemma f32_div_3q: "f32_div 0x3f400000 0x3f800000 = 0x3f400000"
proof -
  have n: "mag_num 1061158912 = 535217884764734955396857238543560676143529984" and d: "mag_num 1065353216 = 713623846352979940529142984724747568191373312"
    by (simp_all add: mag_num_def)
  have lo: "mag_num 1061158912 = 535217884764734955396857238543560676143529984" and hi: "mag_num 1061158913 = 535217927300030820514165171465386605114556416"
    by (simp_all add: mag_num_def)
  have r: "round_mag 535217884764734955396857238543560676143529984 713623846352979940529142984724747568191373312 = 1061158912"
    by (rule round_mag_exact[of 1061158912]) (simp_all add: lo)
  show ?thesis
    by (simp add: f32_div_def Let_def f32_abs_def f32_sign_def f32_exp_def f32_frac_def is_nan_def is_inf_def is_zero_def f32_pack_def n d r)
qed

lemma quantize_value_3q: "quantize_value 0x3f400000 0x3f800000 = Inr 0"
proof -
  have g: "\<not> f32_gt 0x3f400000 0x42FE0000"
    by (simp add: f32_gt_def f32_lt_def f32_key_def f32_sign_def f32_abs_def is_nan_def f32_exp_def f32_frac_def)
  have l: "\<not> f32_lt 0x3f400000 0xC3000000"
    by (simp add: f32_gt_def f32_lt_def f32_key_def f32_sign_def f32_abs_def is_nan_def f32_exp_def f32_frac_def)
  have t: "f32_trunc 0x3f400000 = 0"
    by (simp add: f32_trunc_def f32_sign_def f32_abs_def mag_num_def)
  have n: "\<not> is_nan 0x3f400000" "\<not> is_inf 0x3f400000"
    by (simp_all add: is_nan_def is_inf_def f32_exp_def f32_frac_def)
  have c: "f32_to_int8 0x3f400000 = Inr 0"
    by (simp add: f32_to_int8_def t n)
  show ?thesis
    unfolding quantize_value_def Let_def f32_div_3q f32_of_int_127 f32_of_int_m128
    using g l c by simp
qed

lemma f32_of_int_0: "f32_of_int (0) = 0x0"
proof -
  have lo: "mag_num 0 = 0" and hi: "mag_num 1 = 1"
    by (simp_all add: mag_num_def)
  have r: "round_mag 0 (Suc 0) = 0"
    by (rule round_mag_exact[of 0]) (simp_all add: lo)
  show ?thesis
    by (simp add: f32_of_int_def f32_pack_def r)
qed

lemma f32_mul_0_one: "f32_mul 0x0 0x3f800000 = 0x0"
proof -
  have n: "mag_num 0 = 0" and d: "mag_num 1065353216 = 713623846352979940529142984724747568191373312"
    by (simp_all add: mag_num_def)
  have lo: "mag_num 0 = 0" and hi: "mag_num 1 = 1"
    by (simp_all add: mag_num_def)
  have r: "round_mag 0 509258994083621521567111422102344540262867098416484062659035112338595324940834176545849344 = 0"
    by (rule round_mag_exact[of 0]) (simp_all add: lo)
  show ?thesis
    by (simp add: f32_mul_def Let_def f32_abs_def f32_sign_def f32_exp_def f32_frac_def is_nan_def is_inf_def is_zero_def f32_pack_def n d r)
qed

lemma dequantize_value_0_one: "dequantize_value 0 0x3f800000 = 0x0"
  by (simp add: dequantize_value_def f32_of_int_0 f32_mul_0_one)

lemma f32_of_int_20: "f32_of_int (20) = 0x41a00000"
proof -
  have lo: "mag_num 1101004800 = 14272476927059598810582859694494951363827466240" and hi: "mag_num 1101004801 = 14272478288189066494336713547993381090900312064"
    by (simp_all add: mag_num_def)
  have r: "round_mag 20 (Suc 0) = 1101004800"
    by (rule round_mag_exact[of 1101004800]) (simp_all add: lo)
  show ?thesis
    by (simp add: f32_of_int_def f32_pack_def r)
qed

lemma f32_mul_20: "f32_mul 0x41a00000 0x3dcccccd = 0x40000000"
proof -
  have n: "mag_num 1101004800 = 14272476927059598810582859694494951363827466240" and d: "mag_num 1036831949 = 71362385698680390680846996795520405043412992"
    by (simp_all add: mag_num_def)
  have lo: "mag_num 1073741824 = 1427247692705959881058285969449495136382746624" and hi: "mag_num 1073741825 = 1427247862847143341527517701136798852266852352"
    by (simp_all add: mag_num_def)
  have r: "round_mag 1018518003344343763647731210762985227584475654976771555412910234456975100966858081257390080 509258994083621521567111422102344540262867098416484062659035112338595324940834176545849344 = 1073741824"
    by (rule round_mag_down[of 1073741824]) (simp_all add: lo hi)
  show ?thesis
    by (simp add: f32_mul_def Let_def f32_abs_def f32_sign_def f32_exp_def f32_frac_def is_nan_def is_inf_def is_zero_def f32_pack_def n d r)
qed

lemma dequantize_value_20: "dequantize_value 20 0x3dcccccd = 0x40000000"
  by (simp add: dequantize_value_def f32_of_int_20 f32_mul_20)

lemma f32_div_slack: "f32_div 0x4314029e 0x3fc34ffe = 0x42c1ffff"
proof -
  have n: "mag_num 1125384862 = 105623624914187816118969816490845977202776866816" and d: "mag_num 1069764606 = 1088903404005819622613567012094354560775094272"
    by (simp_all add: mag_num_def)
  have lo: "mag_num 1120010239 = 69221507651721183496311454104306795206271827968" and hi: "mag_num 1120010240 = 69221513096239054231326869518300514114563211264"
    by (simp_all add: mag_num_def)
  have r: "round_mag 105623624914187816118969816490845977202776866816 1088903404005819622613567012094354560775094272 = 1120010239"
    by (rule round_mag_down[of 1120010239]) (simp_all add: lo hi)
  show ?thesis
    by (simp add: f32_div_def Let_def f32_abs_def f32_sign_def f32_exp_def f32_frac_def is_nan_def is_inf_def is_zero_def f32_pack_def n d r)
qed

lemma quantize_value_slack: "quantize_value 0x4314029e 0x3fc34ffe = Inr 96"
proof -
  have g: "\<not> f32_gt 0x42c1ffff 0x42FE0000"
    by (simp add: f32_gt_def f32_lt_def f32_key_def f32_sign_def f32_abs_def is_nan_def f32_exp_def f32_frac_def)
  have l: "\<not> f32_lt 0x42c1ffff 0xC3000000"
    by (simp add: f32_gt_def f32_lt_def f32_key_def f32_sign_def f32_abs_def is_nan_def f32_exp_def f32_frac_def)
  have t: "f32_trunc 0x42c1ffff = 96"
    by (simp add: f32_trunc_def f32_sign_def f32_abs_def mag_num_def)
  have n: "\<not> is_nan 0x42c1ffff" "\<not> is_inf 0x42c1ffff"
    by (simp_all add: is_nan_def is_inf_def f32_exp_def f32_frac_def)
  have c: "f32_to_int8 0x42c1ffff = Inr 96"
    by (simp add: f32_to_int8_def t n)
  show ?thesis
    unfolding quantize_value_def Let_def f32_div_slack f32_of_int_127 f32_of_int_m128
    using g l c by simp
qed

lemma f32_of_int_96: "f32_of_int (96) = 0x42c00000"
proof -
  have lo: "mag_num 1119879168 = 68507889249886074290797726533575766546371837952" and hi: "mag_num 1119879169 = 68507894694403945025813141947569485454663221248"
    by (simp_all add: mag_num_def)
  have r: "round_mag 96 (Suc 0) = 1119879168"
    by (rule round_mag_exact[of 1119879168]) (simp_all add: lo)
  show ?thesis
    by (simp add: f32_of_int_def f32_pack_def r)
qed

lemma f32_mul_96: "f32_mul 0x42c00000 0x3fc34ffe = 0x43127bfe"
proof -
  have n: "mag_num 1119879168 = 68507889249886074290797726533575766546371837952" and d: "mag_num 1069764606 = 1088903404005819622613567012094354560775094272"
    by (simp_all add: mag_num_def)
  have lo: "mag_num 1125284862 = 104534721340040813035887017747064318926117666816" and hi: "mag_num 1125284863 = 104534732229076554505917848575051756742700433408"
    by (simp_all add: mag_num_def)
  have r: "round_mag 74598473805454642968932911705251685073954982765161123303232469023099466118454295098707410944 509258994083621521567111422102344540262867098416484062659035112338595324940834176545849344 = 1125284862"
    using round_mag_tie[of 1125284862 "509258994083621521567111422102344540262867098416484062659035112338595324940834176545849344" 74598473805454642968932911705251685073954982765161123303232469023099466118454295098707410944] by (simp add: lo hi)
  show ?thesis
    by (simp add: f32_mul_def Let_def f32_abs_def f32_sign_def f32_exp_def f32_frac_def is_nan_def is_inf_def is_zero_def f32_pack_def n d r)
qed

lemma dequantize_value_96: "dequantize_value 96 0x3fc34ffe = 0x43127bfe"
  by (simp add: dequantize_value_def f32_of_int_96 f32_mul_96)

section \<open>Claim on the round trip through half precision\<close>

text \<open>
  Claim C7. For every binary32 value \<open>x\<close> whose rebiased exponent lies in the
  half-precision normal range 1 to 30, decoding the encoding of \<open>x\<close> gives a value
  within relative error \<open>2 ^ -10\<close> of \<open>x\<close> (and never larger in magnitude, since
  the mantissa is truncated).
\<close>

theorem C7_roundtrip_relative_error:
  "0 < new_exp x \<Longrightarrow> new_exp x < 31 \<Longrightarrow>
     \<bar>f32_val (float16_to_float32 (float32_to_float16 x)) - f32_val x\<bar> < \<bar>f32_val x\<bar> / 2 ^ 10
     \<and> \<bar>f32_val (float16_to_float32 (float32_to_float16 x))\<bar> \<le> \<bar>f32_val x\<bar>"
  using roundtrip_error[of x] by simp

theorem C7_roundtrip_relative_error_witness:
  "0 < new_exp 0x40066666 \<and> new_exp 0x40066666 < 31
   \<and> \<bar>f32_val (float16_to_float32 (float32_to_float16 0x40066666)) - f32_val 0x40066666\<bar>
        < \<bar>f32_val 0x40066666\<bar> / 2 ^ 10"
proof -
  have a: "0 < new_exp 0x40066666" and b: "new_exp 0x40066666 < 31"
    by (simp_all add: new_exp_def f32_exp_def)
  show ?thesis using C7_roundtrip_relative_error[OF a b] a b by simp
qed

section \<open>Claims on the tensor operations\<close>

text \<open>
  Claim C10. If the source is not tagged \<open>TENSOR_FLOAT32\<close> or the destination is not
  tagged \<open>TENSOR_INT8\<close>, \<open>quantize_float32_to_int8\<close> returns at once: the destination
  is what it was, and nothing is signalled. In the same way
  \<open>dequantize_int8_to_float32\<close> returns at once, with the destination as it was, if the
  source is not tagged \<open>TENSOR_INT8\<close> or the destination is not tagged
  \<open>TENSOR_FLOAT32\<close>.
\<close>

theorem C10_type_mismatch_is_noop:
  "(type src \<noteq> TENSOR_FLOAT32 \<or> type dst \<noteq> TENSOR_INT8
      \<longrightarrow> quantize_float32_to_int8 src dst scale = Inr dst)
   \<and> (type src \<noteq> TENSOR_INT8 \<or> type dst \<noteq> TENSOR_FLOAT32
      \<longrightarrow> dequantize_int8_to_float32 src dst scale = Inr dst)"
  by (simp add: quantize_float32_to_int8_def dequantize_int8_to_float32_def)

theorem C10_type_mismatch_is_noop_witness:
  "quantize_float32_to_int8
      \<lparr>type = TENSOR_FLOAT16, rows = 1, cols = 2, data = F16 [0x3C00, 0x4000]\<rparr>
      \<lparr>type = TENSOR_INT8, rows = 1, cols = 2, data = I8 [7, 9]\<rparr> 0x3DCCCCCD
     = Inr \<lparr>type = TENSOR_INT8, rows = 1, cols = 2, data = I8 [7, 9]\<rparr>
   \<and> dequantize_int8_to_float32
      \<lparr>type = TENSOR_INT8, rows = 1, cols = 2, data = I8 [5, 6]\<rparr>
      \<lparr>type = TENSOR_INT8, rows = 1, cols = 2, data = I8 [7, 9]\<rparr> 0x3DCCCCCD
     = Inr \<lparr>type = TENSOR_INT8, rows = 1, cols = 2, data = I8 [7, 9]\<rparr>"
  using C10_type_mismatch_is_noop
          [of "\<lparr>type = TENSOR_FLOAT16, rows = 1, cols = 2, data = F16 [0x3C00, 0x4000]\<rparr>"
              "\<lparr>type = TENSOR_INT8, rows = 1, cols = 2, data = I8 [7, 9]\<rparr>" "0x3DCCCCCD"]
        C10_type_mismatch_is_noop
          [of "\<lparr>type = TENSOR_INT8, rows = 1, cols = 2, data = I8 [5, 6]\<rparr>"
              "\<lparr>type = TENSOR_INT8, rows = 1, cols = 2, data = I8 [7, 9]\<rparr>" "0x3DCCCCCD"]
  by simp




text \<open>
  Claim C1, as amended. With scale \<open>0.1f\<close> (pattern \<open>0x3DCCCCCD\<close>), quantizing the
  buffer \<open>[0.5f, -1.2f, 3.4f, 2.1f]\<close> yields \<open>[5, -12, 34, 20]\<close>: the quotient
  \<open>2.1f / 0.1f\<close> rounds to \<open>20.999998f\<close> (pattern \<open>0x41A7FFFF\<close>), which truncates to
  20. Dequantizing \<open>[5, -12, 34, 21]\<close> yields \<open>0.5f\<close>, \<open>-1.2f\<close>, \<open>3.4f\<close> and the
  pattern \<open>0x40066667\<close>, the \<open>float\<close> next above \<open>2.1f\<close> (pattern \<open>0x40066666\<close>).
\<close>

theorem C1_worked_example:
  "quantize_float32_to_int8
     \<lparr>type = TENSOR_FLOAT32, rows = 2, cols = 2,
      data = F32 [0x3F000000, 0xBF99999A, 0x4059999A, 0x40066666]\<rparr>
     \<lparr>type = TENSOR_INT8, rows = 2, cols = 2, data = I8 [a, b, c, d]\<rparr> 0x3DCCCCCD
   = Inr \<lparr>type = TENSOR_INT8, rows = 2, cols = 2, data = I8 [5, - 12, 34, 20]\<rparr>
   \<and> dequantize_int8_to_float32
     \<lparr>type = TENSOR_INT8, rows = 2, cols = 2, data = I8 [5, - 12, 34, 21]\<rparr>
     \<lparr>type = TENSOR_FLOAT32, rows = 2, cols = 2, data = F32 [a', b', c', d']\<rparr> 0x3DCCCCCD
   = Inr \<lparr>type = TENSOR_FLOAT32, rows = 2, cols = 2,
          data = F32 [0x3F000000, 0xBF99999A, 0x4059999A, 0x40066667]\<rparr>"
  using demo_quantize[of a b c d] demo_dequantize[of a' b' c' d'] by (rule conjI)

theorem C1_worked_example_witness:
  "quantize_float32_to_int8
     \<lparr>type = TENSOR_FLOAT32, rows = 2, cols = 2,
      data = F32 [0x3F000000, 0xBF99999A, 0x4059999A, 0x40066666]\<rparr>
     \<lparr>type = TENSOR_INT8, rows = 2, cols = 2, data = I8 [0, 0, 0, 0]\<rparr> 0x3DCCCCCD
   = Inr \<lparr>type = TENSOR_INT8, rows = 2, cols = 2, data = I8 [5, - 12, 34, 20]\<rparr>
   \<and> dequantize_int8_to_float32
     \<lparr>type = TENSOR_INT8, rows = 2, cols = 2, data = I8 [5, - 12, 34, 21]\<rparr>
     \<lparr>type = TENSOR_FLOAT32, rows = 2, cols = 2, data = F32 [0, 0, 0, 0]\<rparr> 0x3DCCCCCD
   = Inr \<lparr>type = TENSOR_FLOAT32, rows = 2, cols = 2,
          data = F32 [0x3F000000, 0xBF99999A, 0x4059999A, 0x40066667]\<rparr>"
  by (rule C1_worked_example[of 0 0 0 0 0 0 0 0])

text \<open>
  Claim C1 as stated fails on both halves at the fourth element: the quantized
  buffer is not \<open>[5, -12, 34, 21]\<close>, and the dequantized buffer is not
  \<open>[0.5f, -1.2f, 3.4f, 2.1f]\<close>.
\<close>

theorem C1_counterexample:
  "quantize_float32_to_int8
     \<lparr>type = TENSOR_FLOAT32, rows = 2, cols = 2,
      data = F32 [0x3F000000, 0xBF99999A, 0x4059999A, 0x40066666]\<rparr>
     \<lparr>type = TENSOR_INT8, rows = 2, cols = 2, data = I8 [0, 0, 0, 0]\<rparr> 0x3DCCCCCD
   \<noteq> Inr \<lparr>type = TENSOR_INT8, rows = 2, cols = 2, data = I8 [5, - 12, 34, 21]\<rparr>
   \<and> dequantize_int8_to_float32
     \<lparr>type = TENSOR_INT8, rows = 2, cols = 2, data = I8 [5, - 12, 34, 21]\<rparr>
     \<lparr>type = TENSOR_FLOAT32, rows = 2, cols = 2, data = F32 [0, 0, 0, 0]\<rparr> 0x3DCCCCCD
   \<noteq> Inr \<lparr>type = TENSOR_FLOAT32, rows = 2, cols = 2,
          data = F32 [0x3F000000, 0xBF99999A, 0x4059999A, 0x40066666]\<rparr>"
  by (simp add: demo_quantize demo_dequantize)

text \<open>
  Claim C2, as amended. For every element and every scale whose quotient is not a
  NaN, the loop body yields the quotient clamped to \<open>[-128, 127]\<close> as a \<open>float\<close> and
  then truncated toward zero, as an 8-bit signed integer. When the quotient is a NaN
  (a NaN operand, \<open>0 / 0\<close> or \<open>inf / inf\<close>) neither comparison holds, nothing is
  clamped, and the conversion to \<open>int8_t\<close> is undefined. With scale \<open>0.1f\<close>, the
  one-element buffers \<open>[12.8f]\<close> and \<open>[-13.0f]\<close> quantize to \<open>[127]\<close> and \<open>[-128]\<close>.
\<close>

theorem C2_clamp_then_truncate:
  "(\<not> is_nan (f32_div x scale) \<longrightarrow>
      (\<exists>q. quantize_value x scale = Inr q \<and> sint q = quantize_spec (f32_div x scale)))
   \<and> (is_nan (f32_div x scale) \<longrightarrow> quantize_value x scale = Inl ConversionUndefined)
   \<and> quantize_float32_to_int8
         \<lparr>type = TENSOR_FLOAT32, rows = 1, cols = 1, data = F32 [0x414CCCCD]\<rparr>
         \<lparr>type = TENSOR_INT8, rows = 1, cols = 1, data = I8 [a]\<rparr> 0x3DCCCCCD
       = Inr \<lparr>type = TENSOR_INT8, rows = 1, cols = 1, data = I8 [127]\<rparr>
   \<and> quantize_float32_to_int8
         \<lparr>type = TENSOR_FLOAT32, rows = 1, cols = 1, data = F32 [0xC1500000]\<rparr>
         \<lparr>type = TENSOR_INT8, rows = 1, cols = 1, data = I8 [a]\<rparr> 0x3DCCCCCD
       = Inr \<lparr>type = TENSOR_INT8, rows = 1, cols = 1, data = I8 [- 128]\<rparr>"
  using quantize_value_spec[of x scale] quantize_value_nan[of x scale]
    demo_clamp_high[of a] demo_clamp_low[of a]
  by blast

theorem C2_clamp_then_truncate_witness:
  "\<not> is_nan (f32_div 0x414CCCCD 0x3DCCCCCD)
   \<and> quantize_value 0x414CCCCD 0x3DCCCCCD = Inr 127
   \<and> quantize_spec (f32_div 0x414CCCCD 0x3DCCCCCD) = 127
   \<and> is_nan (f32_div 0x7FC00000 0x3DCCCCCD)
   \<and> quantize_value 0x7FC00000 0x3DCCCCCD = Inl ConversionUndefined"
proof -
  have n1: "\<not> is_nan (f32_div 0x414CCCCD 0x3DCCCCCD)"
    by (simp add: f32_div_12_8 is_nan_def f32_exp_def f32_frac_def)
  have n2: "is_nan (f32_div 0x7FC00000 0x3DCCCCCD)"
    using f32_nan_is_nan by (simp add: f32_div_def is_nan_def f32_exp_def f32_frac_def)
  from C2_clamp_then_truncate[of "0x414CCCCD" "0x3DCCCCCD", THEN conjunct1, rule_format, OF n1]
  obtain q where q: "quantize_value 0x414CCCCD 0x3DCCCCCD = Inr q"
      "sint q = quantize_spec (f32_div 0x414CCCCD 0x3DCCCCCD)"
    by blast
  have "q = 127" using q(1) by (simp add: quantize_value_12_8)
  then have s: "quantize_spec (f32_div 0x414CCCCD 0x3DCCCCCD) = 127" using q(2) by simp
  have u: "quantize_value 0x7FC00000 0x3DCCCCCD = Inl ConversionUndefined"
    using C2_clamp_then_truncate[of "0x7FC00000" "0x3DCCCCCD"] n2 by blast
  show ?thesis using n1 n2 s u by (simp add: quantize_value_12_8)
qed

text \<open>
  Claim C2 as stated fails where the quotient is a NaN: for the element \<open>0.0f\<close> and
  the scale \<open>0.0f\<close> the quotient \<open>0.0f / 0.0f\<close> is a NaN, it passes both comparisons
  unclamped, and its conversion to \<open>int8_t\<close> yields no 8-bit integer.
\<close>

theorem C2_counterexample:
  "is_nan (f32_div 0 0) \<and> quantize_value 0 0 = Inl ConversionUndefined"
proof -
  have "f32_div 0 0 = f32_nan"
    by (simp add: f32_div_def is_nan_def is_inf_def is_zero_def f32_exp_def f32_frac_def f32_abs_def)
  then have "is_nan (f32_div 0 0)" by (simp add: f32_nan_is_nan)
  then show ?thesis using quantize_value_nan[of 0 0] by simp
qed

text \<open>
  Claim C8, as amended. For every finite \<open>x\<close> and every positive finite scale \<open>s\<close>
  for which neither clamp applies (the quotient lies in \<open>[-128, 127]\<close>), quantizing
  yields an 8-bit integer, and dequantizing it, when the product is finite, gives a
  value within \<open>s * (1 + 2 ^ -16)\<close> of \<open>x\<close>: up to one full step \<open>s\<close> from the
  truncation toward zero, and the rest from the rounding of the division and of the
  multiplication.
\<close>

theorem C8_quantize_dequantize_error:
  "is_finite x \<Longrightarrow> is_finite s \<Longrightarrow> f32_sign s = 0 \<Longrightarrow> \<not> is_zero s \<Longrightarrow>
   \<not> f32_gt (f32_div x s) (f32_of_int 127) \<Longrightarrow>
   \<not> f32_lt (f32_div x s) (f32_of_int (- 128)) \<Longrightarrow>
   \<exists>q. quantize_value x s = Inr q \<and>
       (is_finite (dequantize_value q s) \<longrightarrow>
          \<bar>f32_val (dequantize_value q s) - f32_val x\<bar> < f32_val s * (1 + 1 / 2 ^ 16))"
  by (rule dequantize_quantize_error)

theorem C8_quantize_dequantize_error_witness:
  "is_finite 0x40066666 \<and> is_finite 0x3DCCCCCD \<and> f32_sign 0x3DCCCCCD = 0
   \<and> \<not> is_zero 0x3DCCCCCD
   \<and> \<not> f32_gt (f32_div 0x40066666 0x3DCCCCCD) (f32_of_int 127)
   \<and> \<not> f32_lt (f32_div 0x40066666 0x3DCCCCCD) (f32_of_int (- 128))
   \<and> quantize_value 0x40066666 0x3DCCCCCD = Inr 20
   \<and> is_finite (dequantize_value 20 0x3DCCCCCD)
   \<and> \<bar>f32_val (dequantize_value 20 0x3DCCCCCD) - f32_val 0x40066666\<bar>
        < f32_val 0x3DCCCCCD * (1 + 1 / 2 ^ 16)"
proof -
  have h1: "is_finite 0x40066666" and h2: "is_finite 0x3DCCCCCD"
    by (simp_all add: is_finite_def f32_exp_def)
  have h3: "f32_sign 0x3DCCCCCD = 0" by (simp add: f32_sign_def)
  have h4: "\<not> is_zero 0x3DCCCCCD" by (simp add: is_zero_def f32_abs_def)
  have h5: "\<not> f32_gt (f32_div 0x40066666 0x3DCCCCCD) (f32_of_int 127)"
    unfolding f32_div_2_1 f32_of_int_127
    by (simp add: f32_gt_def f32_lt_def f32_key_def f32_sign_def f32_abs_def)
  have h6: "\<not> f32_lt (f32_div 0x40066666 0x3DCCCCCD) (f32_of_int (- 128))"
    unfolding f32_div_2_1 f32_of_int_m128
    by (simp add: f32_lt_def f32_key_def f32_sign_def f32_abs_def)
  from C8_quantize_dequantize_error[OF h1 h2 h3 h4 h5 h6]
  obtain q where q: "quantize_value 0x40066666 0x3DCCCCCD = Inr q"
    and b: "is_finite (dequantize_value q 0x3DCCCCCD) \<longrightarrow>
          \<bar>f32_val (dequantize_value q 0x3DCCCCCD) - f32_val 0x40066666\<bar>
            < f32_val 0x3DCCCCCD * (1 + 1 / 2 ^ 16)"
    by blast
  have q20: "q = 20" using q by (simp add: quantize_value_2_1)
  have f: "is_finite (dequantize_value 20 0x3DCCCCCD)"
    unfolding dequantize_value_20 by (simp add: is_finite_def f32_exp_def)
  have "\<bar>f32_val (dequantize_value 20 0x3DCCCCCD) - f32_val 0x40066666\<bar>
            < f32_val 0x3DCCCCCD * (1 + 1 / 2 ^ 16)"
    using b f unfolding q20 by blast
  then show ?thesis using h1 h2 h3 h4 h5 h6 f quantize_value_2_1 by blast
qed

text \<open>
  Claim C8 as stated fails: for \<open>x = 0.75f\<close> and \<open>s = 1.0f\<close> the quotient \<open>0.75f\<close>
  is truncated to 0, which is not a saturated value, and dequantizes to \<open>0.0f\<close>: the
  error \<open>0.75\<close> exceeds \<open>s / 2 = 0.5\<close>.
\<close>

theorem C8_counterexample:
  "quantize_value 0x3F400000 0x3F800000 = Inr 0
   \<and> dequantize_value 0 0x3F800000 = 0
   \<and> f32_val 0x3F800000 / 2 < \<bar>f32_val (dequantize_value 0 0x3F800000) - f32_val 0x3F400000\<bar>"
proof -
  have a: "f32_val 0x3F800000 = 1" "f32_val 0x3F400000 = 3 / 4" "f32_val 0 = 0"
    by (simp_all add: f32_val_def f32_sign_def f32_abs_def mag_num_def)
  show ?thesis unfolding dequantize_value_0_one a using quantize_value_3q by simp
qed

text \<open>
  The bound of one step \<open>s\<close> alone does not hold either: for \<open>x\<close> of pattern
  \<open>0x4314029E\<close> and \<open>s\<close> of pattern \<open>0x3FC34FFE\<close> the quotient rounds below 97, the
  product \<open>96 * s\<close> rounds down, and the error exceeds \<open>s\<close> by two units in the last
  place of \<open>s\<close>.
\<close>

lemma one_step_bound_exceeded:
  "quantize_value 0x4314029E 0x3FC34FFE = Inr 96
   \<and> f32_val 0x3FC34FFE < \<bar>f32_val (dequantize_value 96 0x3FC34FFE) - f32_val 0x4314029E\<bar>"
proof -
  have a: "f32_val 0x3FC34FFE = 12799998 / 2 ^ 23" "f32_val 0x4314029E = 1241599744 / 2 ^ 23"
      "f32_val 0x43127BFE = 1228799744 / 2 ^ 23"
    by (simp_all add: f32_val_def f32_sign_def f32_abs_def mag_num_def)
  show ?thesis unfolding dequantize_value_96 a using quantize_value_slack by simp
qed

end
